theory Spec2Isabelle
  imports Main
begin

section \<open>Data model\<close>

text \<open>
  A predicate of the game is a node of a binary decision diagram.  Nodes are canonical:
  two nodes are equal exactly when they denote the same Boolean function.  A predicate is
  therefore modelled by the set of valuations (of all declared variables, primed and
  unprimed) that satisfy it: Python's \<^verbatim>\<open>&\<close>, \<^verbatim>\<open>|\<close>, \<^verbatim>\<open>~\<close> on nodes are
  intersection, union and complement, \<^verbatim>\<open>aut.true\<close> is the full set, \<^verbatim>\<open>aut.false\<close>
  the empty set, and \<^verbatim>\<open>!=\<close> on nodes is inequality of sets.  The type \<open>'v\<close> of valuations
  is finite, as the declared variables are finitely many bits.
\<close>

type_synonym 'v pred = "'v set"

datatype error = AssertionError | ValueError | IndexError | KeyError

datatype owner = Env | Sys

record var_decl =
  var_owner :: owner
  var_dom :: "(int \<times> int) option"

text \<open>
  The game object \<^verbatim>\<open>aut\<close>.  The dictionaries \<^verbatim>\<open>aut.action\<close>, \<^verbatim>\<open>aut.init\<close>,
  \<^verbatim>\<open>aut.win\<close> and \<^verbatim>\<open>aut.varlist\<close> are read and written at fixed keys only, so every
  key is a field; a key written by synthesis only (\<^verbatim>\<open>'impl'\<close>, \<^verbatim>\<open>'impl_env'\<close>,
  \<^verbatim>\<open>'impl_sys'\<close>) is optional.  \<open>win_holds\<close> is \<^verbatim>\<open>aut.win['<>[]']\<close> and
  \<open>win_goals\<close> is \<^verbatim>\<open>aut.win['[]<>']\<close>; \<open>varlist_envp\<close> and \<open>varlist_sysp\<close> are
  \<^verbatim>\<open>aut.varlist["env'"]\<close> and \<^verbatim>\<open>aut.varlist["sys'"]\<close>.  The type \<open>'p\<close> of the
  formulas is \<open>string\<close> before compilation and \<open>'v pred\<close> after it.
\<close>

record 'p automaton =
  vars :: "(string \<times> var_decl) list"
  bdd_vars :: "string list"
  varlist_env :: "string list"
  varlist_sys :: "string list"
  varlist_envp :: "string list"
  varlist_sysp :: "string list"
  action_env :: 'p
  action_sys :: 'p
  action_impl :: "'p option"
  init_env :: 'p
  init_sys :: 'p
  init_impl_env :: "'p option"
  init_impl_sys :: "'p option"
  win_holds :: "'p list"
  win_goals :: "'p list"
  moore :: bool
  plus_one :: bool
  qinit :: string

text \<open>
  The modules \<^verbatim>\<open>omega.symbolic.bdd\<close>, \<^verbatim>\<open>omega.symbolic.fixpoint\<close> and
  \<^verbatim>\<open>omega.symbolic.symbolic\<close> (with the class of \<^verbatim>\<open>aut\<close>) are not part of the
  sources at hand.  What the game solver calls from them is a parameter of the model: a
  record of total functions on predicates, named as in the source, each taking its
  arguments in the source's order (a method of \<^verbatim>\<open>aut\<close> takes \<^verbatim>\<open>aut\<close> first).

  \<^item> \<open>prime\<close>: \<^verbatim>\<open>sym_bdd.prime(u, aut)\<close>
  \<^item> \<open>is_state_predicate\<close>: \<^verbatim>\<open>is_state_predicate(u)\<close>
  \<^item> \<open>step\<close>: \<^verbatim>\<open>fx.step(env_action, sys_action, target, aut)\<close>
  \<^item> \<open>trap\<close>: \<^verbatim>\<open>fx.trap(env_action, sys_action, safe, aut, unless=unless)\<close>
  \<^item> \<open>exist\<close>, \<open>forall\<close>: \<^verbatim>\<open>aut.exist(qvars, u)\<close>, \<^verbatim>\<open>aut.forall(qvars, u)\<close>
  \<^item> \<open>add_expr\<close>: \<^verbatim>\<open>aut.add_expr(s)\<close>
  \<^item> \<open>declare_variables\<close>: \<^verbatim>\<open>aut.declare_variables(**vrs)\<close>, the game after the call
  \<^item> \<open>assert_support_moore\<close>: \<^verbatim>\<open>symbolic._assert_support_moore(u, aut)\<close>, whether
    its assertion holds
  \<^item> \<open>new_automaton\<close>: \<^verbatim>\<open>symbolic.Automaton()\<close>
  \<^item> \<open>fill_blanks\<close>: \<^verbatim>\<open>symbolic.fill_blanks(aut, rabin=r)\<close>, the game after the call
  \<^item> \<open>build\<close>: \<^verbatim>\<open>aut.build()\<close>, the compiled game it returns
\<close>

record 'v symbolic =
  prime :: "'v pred \<Rightarrow> 'v pred automaton \<Rightarrow> 'v pred"
  is_state_predicate :: "'v pred \<Rightarrow> bool"
  step :: "'v pred \<Rightarrow> 'v pred \<Rightarrow> 'v pred \<Rightarrow> 'v pred automaton \<Rightarrow> 'v pred"
  trap :: "'v pred \<Rightarrow> 'v pred \<Rightarrow> 'v pred \<Rightarrow> 'v pred automaton \<Rightarrow> 'v pred \<Rightarrow> 'v pred"
  exist :: "'v pred automaton \<Rightarrow> string list \<Rightarrow> 'v pred \<Rightarrow> 'v pred"
  forall :: "'v pred automaton \<Rightarrow> string list \<Rightarrow> 'v pred \<Rightarrow> 'v pred"
  add_expr :: "'v pred automaton \<Rightarrow> string \<Rightarrow> 'v pred"
  declare_variables ::
    "'v pred automaton \<Rightarrow> (string \<times> int \<times> int) list \<Rightarrow> 'v pred automaton"
  assert_support_moore :: "'v pred \<Rightarrow> 'v pred automaton \<Rightarrow> bool"
  new_automaton :: "string automaton"
  fill_blanks :: "string automaton \<Rightarrow> bool \<Rightarrow> string automaton"
  build :: "string automaton \<Rightarrow> 'v pred automaton"

section \<open>Rabin(1) solver\<close>

text \<open>
  \<^verbatim>\<open>_attractor_inside(inside, goal, aut)\<close>.  One round of the loop body computes the
  next \<^verbatim>\<open>x\<close> from the current one; the loop starts from \<^verbatim>\<open>aut.false\<close> with
  \<^verbatim>\<open>xold = None\<close>, so its body runs at least once, and every round appends the new
  \<^verbatim>\<open>x\<close> to \<^verbatim>\<open>xr\<close> before the test \<^verbatim>\<open>x != xold\<close>.
\<close>

definition attractor_inside_body ::
  "'v symbolic \<Rightarrow> 'v pred \<Rightarrow> 'v pred \<Rightarrow> 'v pred automaton \<Rightarrow> 'v pred \<Rightarrow> 'v pred" where
  "attractor_inside_body K inside goal aut xold =
     (let cox_x = step K (action_env aut) (action_sys aut) xold aut;
          x = cox_x \<union> goal;
          x = x \<inter> inside;
          x = x \<union> xold
      in x)"

function attractor_inside_loop ::
  "'v::finite symbolic \<Rightarrow> 'v pred \<Rightarrow> 'v pred \<Rightarrow> 'v pred automaton \<Rightarrow>
     'v pred \<Rightarrow> 'v pred list \<Rightarrow> 'v pred \<times> 'v pred list" where
  "attractor_inside_loop K inside goal aut xold xr =
     (let x = attractor_inside_body K inside goal aut xold;
          xr = xr @ [x]
      in if x \<noteq> xold then attractor_inside_loop K inside goal aut x xr else (x, xr))"
  by pat_completeness auto

lemma attractor_inside_body_incr: "xold \<subseteq> attractor_inside_body K inside goal aut xold"
  by (simp add: attractor_inside_body_def Let_def)

lemma card_compl_less:
  fixes x y :: "'v::finite set"
  assumes "x \<subseteq> y" "y \<noteq> x"
  shows "card (- y) < card (- x)"
proof (rule psubset_card_mono)
  show "finite (- x)" by simp
  show "- y \<subset> - x" using assms by blast
qed

termination attractor_inside_loop
proof (relation "measure (\<lambda>(K, inside, goal, aut, xold, xr). card (- xold))")
  show "wf (measure (\<lambda>(K :: 'a symbolic, inside :: 'a set, goal :: 'a set,
      aut :: 'a set automaton, xold :: 'a set, xr :: 'a set list). card (- xold)))"
    by simp
next
  fix K :: "'a symbolic" and inside goal xold :: "'a set" and aut :: "'a set automaton"
    and xr xa :: "'a set list" and x :: "'a set"
  assume "x = attractor_inside_body K inside goal aut xold" "x \<noteq> xold"
  then show "((K, inside, goal, aut, x, xa), (K, inside, goal, aut, xold, xr))
      \<in> measure (\<lambda>(K, inside, goal, aut, xold, xr). card (- xold))"
    using card_compl_less [OF attractor_inside_body_incr, of K inside goal aut xold]
    by simp
qed

declare attractor_inside_loop.simps [simp del]

definition attractor_inside ::
  "'v::finite symbolic \<Rightarrow> 'v pred \<Rightarrow> 'v pred \<Rightarrow> 'v pred automaton \<Rightarrow>
     'v pred \<times> 'v pred list" where
  "attractor_inside K inside goal aut = attractor_inside_loop K inside goal aut {} []"

text \<open>
  \<^verbatim>\<open>_cycle_inside(z, hold, aut)\<close>.  The inner \<^verbatim>\<open>for\<close> loop over the recurrence goals
  threads \<^verbatim>\<open>y\<close> and the list \<^verbatim>\<open>xjr\<close>, which is reset at every round of the
  \<^verbatim>\<open>while\<close> loop; the loop returns the \<^verbatim>\<open>xjr\<close> of its last round.
\<close>

fun cycle_inside_goals ::
  "'v::finite symbolic \<Rightarrow> 'v pred \<Rightarrow> 'v pred automaton \<Rightarrow> 'v pred list \<Rightarrow>
     'v pred \<Rightarrow> 'v pred list list \<Rightarrow> 'v pred \<times> 'v pred list list" where
  "cycle_inside_goals K inside aut [] y xjr = (y, xjr)"
| "cycle_inside_goals K inside aut (goal # goals) y xjr =
     (let (x, xr) = attractor_inside K inside goal aut;
          xjr = xjr @ [xr];
          y = y \<inter> x
      in cycle_inside_goals K inside aut goals y xjr)"

definition cycle_inside_body ::
  "'v::finite symbolic \<Rightarrow> 'v pred \<Rightarrow> 'v pred automaton \<Rightarrow> 'v pred \<Rightarrow>
     'v pred \<times> 'v pred list list" where
  "cycle_inside_body K g aut yold =
     (let cox_y = step K (action_env aut) (action_sys aut) yold aut;
          inside = cox_y \<inter> g
      in cycle_inside_goals K inside aut (win_goals aut) yold [])"

lemma cycle_inside_goals_decr: "fst (cycle_inside_goals K inside aut goals y xjr) \<subseteq> y"
proof (induction goals arbitrary: y xjr)
  case Nil
  show ?case by simp
next
  case (Cons goal goals)
  obtain x xr where a: "attractor_inside K inside goal aut = (x, xr)"
    by (cases "attractor_inside K inside goal aut")
  have "fst (cycle_inside_goals K inside aut goals (y \<inter> x) (xjr @ [xr])) \<subseteq> y \<inter> x"
    by (rule Cons.IH)
  then show ?case by (simp add: a)
qed

lemma cycle_inside_body_decr: "fst (cycle_inside_body K g aut yold) \<subseteq> yold"
  by (simp add: cycle_inside_body_def Let_def cycle_inside_goals_decr)

lemma card_less:
  fixes x y :: "'v::finite set"
  assumes "y \<subseteq> x" "y \<noteq> x"
  shows "card y < card x"
proof (rule psubset_card_mono)
  show "finite x" by simp
  show "y \<subset> x" using assms by blast
qed

function cycle_inside_loop ::
  "'v::finite symbolic \<Rightarrow> 'v pred \<Rightarrow> 'v pred automaton \<Rightarrow> 'v pred \<Rightarrow>
     'v pred \<times> 'v pred list list" where
  "cycle_inside_loop K g aut yold =
     (let (y, xjr) = cycle_inside_body K g aut yold
      in if y \<noteq> yold then cycle_inside_loop K g aut y else (y, xjr))"
  by pat_completeness auto

termination cycle_inside_loop
proof (relation "measure (\<lambda>(K, g, aut, yold). card yold)")
  show "wf (measure (\<lambda>(K :: 'a symbolic, g :: 'a set, aut :: 'a set automaton,
      yold :: 'a set). card yold))"
    by simp
next
  fix K :: "'a symbolic" and g yold y :: "'a set" and aut :: "'a set automaton"
    and p :: "'a set \<times> 'a set list list" and xjr :: "'a set list list"
  assume "p = cycle_inside_body K g aut yold" "(y, xjr) = p" "y \<noteq> yold"
  then have "y \<subseteq> yold"
    using cycle_inside_body_decr [of K g aut yold] by (metis fst_conv)
  with \<open>y \<noteq> yold\<close> show "((K, g, aut, y), (K, g, aut, yold))
      \<in> measure (\<lambda>(K, g, aut, yold). card yold)"
    by (simp add: card_less)
qed

declare cycle_inside_loop.simps [simp del]

definition cycle_inside ::
  "'v::finite symbolic \<Rightarrow> 'v pred \<Rightarrow> 'v pred \<Rightarrow> 'v pred automaton \<Rightarrow>
     'v pred \<times> 'v pred list list" where
  "cycle_inside K z hold aut =
     (let cox_z = step K (action_env aut) (action_sys aut) z aut;
          g = cox_z \<union> hold
      in cycle_inside_loop K g aut UNIV)"

text \<open>
  \<^verbatim>\<open>solve_rabin_game(aut, rank=1)\<close>.  The \<^verbatim>\<open>for\<close> loop over the persistence sets
  calls \<^verbatim>\<open>_cycle_inside\<close> with \<^verbatim>\<open>zold\<close> and accumulates \<^verbatim>\<open>z\<close>; every round of
  the \<^verbatim>\<open>while\<close> loop appends to \<^verbatim>\<open>zk\<close>, \<^verbatim>\<open>yki\<close> and \<^verbatim>\<open>xkijr\<close>.  The call
  \<^verbatim>\<open>aut.build()\<close> drops the game it returns.
\<close>

fun rabin_holds ::
  "'v::finite symbolic \<Rightarrow> 'v pred \<Rightarrow> 'v pred automaton \<Rightarrow> 'v pred list \<Rightarrow>
     'v pred \<Rightarrow> 'v pred list list list \<Rightarrow> 'v pred list \<Rightarrow>
     'v pred \<times> 'v pred list list list \<times> 'v pred list" where
  "rabin_holds K zold aut [] z xijr yi = (z, xijr, yi)"
| "rabin_holds K zold aut (hold # holds) z xijr yi =
     (let (y, xjr) = cycle_inside K zold hold aut;
          z = z \<union> y;
          xijr = xijr @ [xjr];
          yi = yi @ [y]
      in rabin_holds K zold aut holds z xijr yi)"

definition solve_rabin_body ::
  "'v::finite symbolic \<Rightarrow> 'v pred automaton \<Rightarrow> 'v pred \<Rightarrow>
     'v pred \<times> 'v pred list list list \<times> 'v pred list" where
  "solve_rabin_body K aut zold = rabin_holds K zold aut (win_holds aut) zold [] []"

lemma rabin_holds_incr: "z \<subseteq> fst (rabin_holds K zold aut holds z xijr yi)"
proof (induction holds arbitrary: z xijr yi)
  case Nil
  show ?case by simp
next
  case (Cons hold holds)
  obtain y xjr where c: "cycle_inside K zold hold aut = (y, xjr)"
    by (cases "cycle_inside K zold hold aut")
  have "z \<union> y \<subseteq> fst (rabin_holds K zold aut holds (z \<union> y) (xijr @ [xjr]) (yi @ [y]))"
    by (rule Cons.IH)
  then show ?case by (simp add: c)
qed

function solve_rabin_loop ::
  "'v::finite symbolic \<Rightarrow> 'v pred automaton \<Rightarrow> 'v pred \<Rightarrow> 'v pred list \<Rightarrow>
     'v pred list list \<Rightarrow> 'v pred list list list list \<Rightarrow>
     'v pred \<times> 'v pred list \<times> 'v pred list list \<times> 'v pred list list list list" where
  "solve_rabin_loop K aut zold zk yki xkijr =
     (let (z, xijr, yi) = solve_rabin_body K aut zold;
          zk = zk @ [z];
          yki = yki @ [yi];
          xkijr = xkijr @ [xijr]
      in if z \<noteq> zold then solve_rabin_loop K aut z zk yki xkijr
         else (z, zk, yki, xkijr))"
  by pat_completeness auto

termination solve_rabin_loop
proof (relation "measure (\<lambda>(K, aut, zold, zk, yki, xkijr). card (- zold))")
  show "wf (measure (\<lambda>(K :: 'a symbolic, aut :: 'a set automaton, zold :: 'a set,
      zk :: 'a set list, yki :: 'a set list list, xkijr :: 'a set list list list list).
      card (- zold)))"
    by simp
next
  fix K :: "'a symbolic" and aut :: "'a set automaton" and zold z :: "'a set"
    and zk zk' :: "'a set list" and yki yki' :: "'a set list list"
    and xkijr xkijr' :: "'a set list list list list"
    and p :: "'a set \<times> 'a set list list list \<times> 'a set list"
    and q :: "'a set list list list \<times> 'a set list"
  assume "p = solve_rabin_body K aut zold" "(z, q) = p" "z \<noteq> zold"
  then have "zold \<subseteq> z"
    using rabin_holds_incr [of zold K zold aut "win_holds aut" "[]" "[]"]
    by (metis fst_conv solve_rabin_body_def)
  with \<open>z \<noteq> zold\<close> show "((K, aut, z, zk', yki', xkijr'), (K, aut, zold, zk, yki, xkijr))
      \<in> measure (\<lambda>(K, aut, zold, zk, yki, xkijr). card (- zold))"
    by (simp add: card_compl_less)
qed

declare solve_rabin_loop.simps [simp del]

definition solve_rabin_game ::
  "'v::finite symbolic \<Rightarrow> 'v pred automaton \<Rightarrow> int \<Rightarrow>
     error + 'v pred list \<times> 'v pred list list \<times> 'v pred list list list list" where
  "solve_rabin_game K aut rank =
     (if rank \<noteq> 1 then Inl AssertionError
      else if \<not> (bdd_vars aut \<noteq> [] \<or> vars aut = []) then Inl AssertionError
      else if \<not> length (win_holds aut) > 0 then Inl AssertionError
      else if \<not> length (win_goals aut) > 0 then Inl AssertionError
      else
        (let (z, zk, yki, xkijr) = solve_rabin_loop K aut {} [] [] []
         in if \<not> is_state_predicate K z then Inl AssertionError
            else Inr (zk, yki, xkijr)))"

section \<open>Streett(1) solver\<close>

text \<open>
  \<^verbatim>\<open>_attractor_under_assumptions(goal, aut)\<close>.  The \<^verbatim>\<open>for\<close> loop over the persistence
  sets calls \<^verbatim>\<open>fx.trap\<close> with the same \<^verbatim>\<open>unless\<close> and accumulates \<^verbatim>\<open>y\<close>; the
  \<^verbatim>\<open>while\<close> loop starts from \<^verbatim>\<open>aut.false\<close> with \<^verbatim>\<open>yold = None\<close> and appends
  the accumulated \<^verbatim>\<open>y\<close> to \<^verbatim>\<open>yj\<close> at the end of every round, after the \<^verbatim>\<open>for\<close>
  loop.
\<close>

fun attractor_under_holds ::
  "'v symbolic \<Rightarrow> 'v pred \<Rightarrow> 'v pred automaton \<Rightarrow> 'v pred list \<Rightarrow>
     'v pred list \<Rightarrow> 'v pred \<Rightarrow> 'v pred list \<times> 'v pred" where
  "attractor_under_holds K unless aut [] xk y = (xk, y)"
| "attractor_under_holds K unless aut (safe # holds) xk y =
     (let x = trap K (action_env aut) (action_sys aut) safe aut unless;
          xk = xk @ [x];
          y = y \<union> x
      in attractor_under_holds K unless aut holds xk y)"

definition attractor_under_body ::
  "'v symbolic \<Rightarrow> 'v pred \<Rightarrow> 'v pred automaton \<Rightarrow> 'v pred \<Rightarrow> 'v pred list \<times> 'v pred" where
  "attractor_under_body K goal aut yold =
     (let cox_y = step K (action_env aut) (action_sys aut) yold aut;
          unless = cox_y \<union> goal
      in attractor_under_holds K unless aut (win_holds aut) [] yold)"

lemma attractor_under_holds_incr:
  "y \<subseteq> snd (attractor_under_holds K unless aut holds xk y)"
proof (induction holds arbitrary: xk y)
  case Nil
  show ?case by simp
next
  case (Cons safe holds)
  let ?x = "trap K (action_env aut) (action_sys aut) safe aut unless"
  have "y \<union> ?x \<subseteq> snd (attractor_under_holds K unless aut holds (xk @ [?x]) (y \<union> ?x))"
    by (rule Cons.IH)
  then show ?case by (simp add: Let_def)
qed

lemma attractor_under_body_incr: "yold \<subseteq> snd (attractor_under_body K goal aut yold)"
  by (simp add: attractor_under_body_def Let_def attractor_under_holds_incr)

function attractor_under_loop ::
  "'v::finite symbolic \<Rightarrow> 'v pred \<Rightarrow> 'v pred automaton \<Rightarrow> 'v pred \<Rightarrow>
     'v pred list \<Rightarrow> 'v pred list list \<Rightarrow> 'v pred \<times> 'v pred list \<times> 'v pred list list" where
  "attractor_under_loop K goal aut yold yj xjk =
     (let (xk, y) = attractor_under_body K goal aut yold;
          yj = yj @ [y];
          xjk = xjk @ [xk]
      in if y \<noteq> yold then attractor_under_loop K goal aut y yj xjk else (y, yj, xjk))"
  by pat_completeness auto

termination attractor_under_loop
proof (relation "measure (\<lambda>(K, goal, aut, yold, yj, xjk). card (- yold))")
  show "wf (measure (\<lambda>(K :: 'a symbolic, goal :: 'a set, aut :: 'a set automaton,
      yold :: 'a set, yj :: 'a set list, xjk :: 'a set list list). card (- yold)))"
    by simp
next
  fix K :: "'a symbolic" and goal yold y :: "'a set" and aut :: "'a set automaton"
    and yj yj' xk :: "'a set list" and xjk xjk' :: "'a set list list"
    and p :: "'a set list \<times> 'a set"
  assume "p = attractor_under_body K goal aut yold" "(xk, y) = p" "y \<noteq> yold"
  then have "yold \<subseteq> y"
    using attractor_under_body_incr [of yold K goal aut] by (metis snd_conv)
  with \<open>y \<noteq> yold\<close> show "((K, goal, aut, y, yj', xjk'), (K, goal, aut, yold, yj, xjk))
      \<in> measure (\<lambda>(K, goal, aut, yold, yj, xjk). card (- yold))"
    by (simp add: card_compl_less)
qed

declare attractor_under_loop.simps [simp del]

definition attractor_under_assumptions ::
  "'v::finite symbolic \<Rightarrow> 'v pred \<Rightarrow> 'v pred automaton \<Rightarrow>
     'v pred \<times> 'v pred list \<times> 'v pred list list" where
  "attractor_under_assumptions K goal aut = attractor_under_loop K goal aut {} [] []"

text \<open>
  \<^verbatim>\<open>solve_streett_game(aut, rank=1)\<close>.  One round of the \<^verbatim>\<open>while\<close> loop computes
  \<^verbatim>\<open>cox_z\<close> from the \<^verbatim>\<open>z\<close> at its head, resets \<^verbatim>\<open>xijk\<close> and \<^verbatim>\<open>yij\<close>, and runs
  the \<^verbatim>\<open>for\<close> loop over the recurrence goals, which narrows \<^verbatim>\<open>z\<close>.  The solver
  returns the lists of its last round.
\<close>

fun streett_goals ::
  "'v::finite symbolic \<Rightarrow> 'v pred \<Rightarrow> 'v pred automaton \<Rightarrow> 'v pred list \<Rightarrow>
     'v pred \<Rightarrow> 'v pred list list list \<Rightarrow> 'v pred list list \<Rightarrow>
     'v pred \<times> 'v pred list list \<times> 'v pred list list list" where
  "streett_goals K cox_z aut [] z xijk yij = (z, yij, xijk)"
| "streett_goals K cox_z aut (goal # goals) z xijk yij =
     (let goal = goal \<inter> cox_z;
          (y, yj, xjk) = attractor_under_assumptions K goal aut;
          z = z \<inter> y;
          xijk = xijk @ [xjk];
          yij = yij @ [yj]
      in streett_goals K cox_z aut goals z xijk yij)"

definition solve_streett_body ::
  "'v::finite symbolic \<Rightarrow> 'v pred automaton \<Rightarrow> 'v pred \<Rightarrow>
     'v pred \<times> 'v pred list list \<times> 'v pred list list list" where
  "solve_streett_body K aut zold =
     (let cox_z = step K (action_env aut) (action_sys aut) zold aut
      in streett_goals K cox_z aut (win_goals aut) zold [] [])"

lemma streett_goals_decr: "fst (streett_goals K cox_z aut goals z xijk yij) \<subseteq> z"
proof (induction goals arbitrary: z xijk yij)
  case Nil
  show ?case by simp
next
  case (Cons goal goals)
  obtain y yj xjk where a: "attractor_under_assumptions K (goal \<inter> cox_z) aut = (y, yj, xjk)"
    by (cases "attractor_under_assumptions K (goal \<inter> cox_z) aut")
  have "fst (streett_goals K cox_z aut goals (z \<inter> y) (xijk @ [xjk]) (yij @ [yj])) \<subseteq> z \<inter> y"
    by (rule Cons.IH)
  then show ?case by (simp add: a)
qed

lemma solve_streett_body_decr: "fst (solve_streett_body K aut zold) \<subseteq> zold"
  by (simp add: solve_streett_body_def streett_goals_decr)

function solve_streett_loop ::
  "'v::finite symbolic \<Rightarrow> 'v pred automaton \<Rightarrow> 'v pred \<Rightarrow>
     'v pred \<times> 'v pred list list \<times> 'v pred list list list" where
  "solve_streett_loop K aut zold =
     (let (z, yij, xijk) = solve_streett_body K aut zold
      in if z \<noteq> zold then solve_streett_loop K aut z else (z, yij, xijk))"
  by pat_completeness auto

termination solve_streett_loop
proof (relation "measure (\<lambda>(K, aut, zold). card zold)")
  show "wf (measure (\<lambda>(K :: 'a symbolic, aut :: 'a set automaton, zold :: 'a set).
      card zold))"
    by simp
next
  fix K :: "'a symbolic" and aut :: "'a set automaton" and zold z :: "'a set"
    and p :: "'a set \<times> 'a set list list \<times> 'a set list list list"
    and q :: "'a set list list \<times> 'a set list list list"
  assume "p = solve_streett_body K aut zold" "(z, q) = p" "z \<noteq> zold"
  then have "z \<subseteq> zold"
    using solve_streett_body_decr [of K aut zold] by (metis fst_conv)
  with \<open>z \<noteq> zold\<close> show "((K, aut, z), (K, aut, zold)) \<in> measure (\<lambda>(K, aut, zold). card zold)"
    by (simp add: card_less)
qed

declare solve_streett_loop.simps [simp del]

definition solve_streett_game ::
  "'v::finite symbolic \<Rightarrow> 'v pred automaton \<Rightarrow> int \<Rightarrow>
     error + 'v pred \<times> 'v pred list list \<times> 'v pred list list list" where
  "solve_streett_game K aut rank =
     (if rank \<noteq> 1 then Inl AssertionError
      else if \<not> (bdd_vars aut \<noteq> [] \<or> vars aut = []) then Inl AssertionError
      else if \<not> length (win_holds aut) > 0 then Inl AssertionError
      else if \<not> length (win_goals aut) > 0 then Inl AssertionError
      else
        (let (z, yij, xijk) = solve_streett_loop K aut UNIV
         in if \<not> is_state_predicate K z then Inl AssertionError
            else Inr (z, yij, xijk)))"

text \<open>
  The value of \<^verbatim>\<open>z\<close> at the head of round \<open>n\<close> of the \<^verbatim>\<open>while\<close> loop of
  \<^verbatim>\<open>solve_streett_game\<close>: \<^verbatim>\<open>aut.true\<close> at round 0, and the \<^verbatim>\<open>z\<close> that the previous
  round left otherwise.
\<close>

primrec streett_z :: "'v::finite symbolic \<Rightarrow> 'v pred automaton \<Rightarrow> nat \<Rightarrow> 'v pred" where
  "streett_z K aut 0 = UNIV"
| "streett_z K aut (Suc n) = fst (solve_streett_body K aut (streett_z K aut n))"

section \<open>Realizability, controllable actions and initial conditions\<close>

text \<open>
  The four values of \<^verbatim>\<open>aut.qinit\<close> that the source compares with: the Python literals
  \<^verbatim>\<open>'\A \A'\<close>, \<^verbatim>\<open>'\E \E'\<close>, \<^verbatim>\<open>'\A \E'\<close> and \<^verbatim>\<open>'\E \A'\<close>, in which the
  backslash (character \<open>0x5C\<close>) stands for itself.
\<close>

definition backslash :: string where
  "backslash = [CHR 0x5C]"

definition qinit_AA :: string where
  "qinit_AA = backslash @ ''A '' @ backslash @ ''A''"

definition qinit_EE :: string where
  "qinit_EE = backslash @ ''E '' @ backslash @ ''E''"

definition qinit_AE :: string where
  "qinit_AE = backslash @ ''A '' @ backslash @ ''E''"

definition qinit_EA :: string where
  "qinit_EA = backslash @ ''E '' @ backslash @ ''A''"

text \<open>
  \<^verbatim>\<open>is_realizable(z, aut)\<close>.  The warnings and the message it prints are not part of
  the model; its assertions and the \<^verbatim>\<open>ValueError\<close> are.
\<close>

definition is_realizable :: "'v symbolic \<Rightarrow> 'v pred \<Rightarrow> 'v pred automaton \<Rightarrow> error + bool" where
  "is_realizable K z aut =
     (let env_init = init_env aut;
          sys_init = init_sys aut;
          evars = varlist_sys aut;
          uvars = varlist_env aut
      in if \<not> env_init \<noteq> {} then Inl AssertionError
         else if qinit aut = qinit_AA then
           (let u = sys_init \<inter> z;
                u = u \<union> - env_init
            in Inr (u = UNIV))
         else if qinit aut = qinit_EE then
           (let u = sys_init \<inter> z;
                u = u \<inter> env_init;
                u = exist K aut (evars @ uvars) u
            in Inr (u = UNIV))
         else if qinit aut = qinit_AE then
           (if moore aut then Inl AssertionError
            else
              (let a = exist K aut evars env_init;
                   u = sys_init \<inter> z;
                   u = u \<inter> env_init;
                   u = u \<union> - a;
                   u = exist K aut evars u;
                   u = forall K aut uvars u
               in Inr (u = UNIV)))
         else if qinit aut = qinit_EA then
           (let a = exist K aut evars env_init;
                u = sys_init \<inter> z;
                u = u \<inter> env_init;
                u = u \<union> - a;
                u = forall K aut uvars u;
                u = exist K aut evars u
            in Inr (u = UNIV))
         else Inl ValueError)"

text \<open>\<^verbatim>\<open>_controllable_action(target, aut)\<close>.\<close>

definition controllable_action :: "'v symbolic \<Rightarrow> 'v pred \<Rightarrow> 'v pred automaton \<Rightarrow> 'v pred" where
  "controllable_action K target aut =
     (let env_action = action_env aut;
          sys_action = action_sys aut;
          u = prime K target aut;
          u = (if plus_one aut
               then (let u = u \<union> - env_action; u = u \<inter> sys_action in u)
               else (let u = u \<inter> sys_action; u = u \<union> - env_action in u));
          u = (if moore aut then forall K aut (varlist_envp aut) u else u)
      in u)"

text \<open>
  \<^verbatim>\<open>_make_init(internal_init, win, aut)\<close> writes two keys of \<^verbatim>\<open>aut.init\<close>; the model
  returns the game as the call leaves it, together with the exception raised, if any.
\<close>

definition make_init ::
  "'v symbolic \<Rightarrow> 'v pred \<Rightarrow> 'v pred \<Rightarrow> 'v pred automaton \<Rightarrow>
     (error + unit) \<times> 'v pred automaton" where
  "make_init K internal_init win aut =
     (let a = init_env aut;
          b = init_sys aut;
          u = b \<inter> internal_init;
          sys_init = u \<inter> win;
          r = (if qinit aut = qinit_AA \<or> qinit aut = qinit_AE \<or> qinit aut = qinit_EE
               then Inr (a \<inter> sys_init)
               else if qinit aut = qinit_EA then
                 (let env_bound = exist K aut (varlist_sys aut) a;
                      u = a \<inter> sys_init;
                      u = u \<union> - env_bound;
                      sys_bound = forall K aut (varlist_env aut) u
                  in Inr (env_bound \<inter> sys_bound))
               else Inl ValueError)
      in case r of
           Inl e \<Rightarrow> (Inl e, aut)
         | Inr env_init \<Rightarrow>
             if \<not> env_init \<noteq> {} then (Inl AssertionError, aut)
             else if \<not> sys_init \<noteq> {} then (Inl AssertionError, aut)
             else (Inr (), aut\<lparr>init_impl_env := Some env_init, init_impl_sys := Some sys_init\<rparr>))"

section \<open>Strategy synthesis\<close>

text \<open>
  The expressions handed to \<^verbatim>\<open>aut.add_expr\<close> are built with \<^verbatim>\<open>str.format\<close> from the
  names of the counters and from integers, which Python prints in decimal.  The
  conjunction sign and the membership sign \<^verbatim>\<open>\in\<close> of the Python literals keep their
  backslash.
\<close>

fun str_nat :: "nat \<Rightarrow> string" where
  "str_nat n =
     (if n < 10 then [''0123456789'' ! n]
      else str_nat (n div 10) @ [''0123456789'' ! (n mod 10)])"

definition str_int :: "int \<Rightarrow> string" where
  "str_int i = (if i < 0 then ''-'' @ str_nat (nat (- i)) else str_nat (nat i))"

definition land :: string where
  "land = ''/'' @ backslash"

definition lin :: string where
  "lin = backslash @ ''in''"

text \<open>The expression \<^verbatim>\<open>({c} = {i}) /\ ({c}' = {ip})\<close>.\<close>

definition expr_advance :: "string \<Rightarrow> nat \<Rightarrow> nat \<Rightarrow> string" where
  "expr_advance c i ip =
     ''('' @ c @ '' = '' @ str_nat i @ '') '' @ land @ '' ('' @ c @ ''' = '' @ str_nat ip @ '')''"

text \<open>The expression \<^verbatim>\<open>{c} \in 0..{n}\<close>.\<close>

definition expr_range :: "string \<Rightarrow> int \<Rightarrow> string" where
  "expr_range c n = c @ '' '' @ lin @ '' 0..'' @ str_int n"

text \<open>
  The loop over \<^verbatim>\<open>enumerate(goals)\<close> of \<open>\<rho>\<^sub>1\<close> in
  \<^verbatim>\<open>make_streett_transducer\<close> and of \<open>\<rho>\<^sub>4\<close> in \<^verbatim>\<open>make_rabin_transducer\<close>, with
  \<open>n\<close> the number of goals and \<open>i\<close> the running index.
\<close>

fun switch_goals ::
  "'v symbolic \<Rightarrow> 'v pred automaton \<Rightarrow> string \<Rightarrow> nat \<Rightarrow> nat \<Rightarrow> 'v pred list \<Rightarrow>
     'v pred \<Rightarrow> 'v pred" where
  "switch_goals K aut c n i [] rho_1 = rho_1"
| "switch_goals K aut c n i (goal # goals) rho_1 =
     (let ip = (i + 1) mod n;
          s = expr_advance c i ip;
          u = add_expr K aut s;
          u = u \<inter> goal;
          rho_1 = rho_1 \<union> u
      in switch_goals K aut c n (i + 1) goals rho_1)"

text \<open>
  \<open>\<rho>\<^sub>2\<close>: the loop over \<^verbatim>\<open>yj[1:]\<close>, and the loop over \<^verbatim>\<open>enumerate(yij)\<close>, in which
  \<^verbatim>\<open>yj[0]\<close> raises on an empty list.
\<close>

fun streett_rho_2j ::
  "'v symbolic \<Rightarrow> 'v pred automaton \<Rightarrow> 'v pred list \<Rightarrow> 'v pred \<Rightarrow> 'v pred \<Rightarrow> 'v pred" where
  "streett_rho_2j K aut [] basin rho_2j = rho_2j"
| "streett_rho_2j K aut (y # ys) basin rho_2j =
     (let ystar = controllable_action K basin aut;
          rim = y \<inter> - basin;
          u = rim \<inter> ystar;
          rho_2j = rho_2j \<union> u;
          basin = basin \<union> y
      in streett_rho_2j K aut ys basin rho_2j)"

fun streett_rho_2 ::
  "'v symbolic \<Rightarrow> 'v pred automaton \<Rightarrow> string \<Rightarrow> nat \<Rightarrow> 'v pred list list \<Rightarrow>
     'v pred \<Rightarrow> error + 'v pred" where
  "streett_rho_2 K aut c i [] rho_2 = Inr rho_2"
| "streett_rho_2 K aut c i (yj # yij) rho_2 =
     (let s = expr_advance c i i;
          count = add_expr K aut s
      in case yj of
           [] \<Rightarrow> Inl IndexError
         | basin # ys \<Rightarrow>
             (let rho_2j = streett_rho_2j K aut ys basin {};
                  u = rho_2j \<inter> count;
                  rho_2 = rho_2 \<union> u
              in streett_rho_2 K aut c (i + 1) yij rho_2))"

text \<open>
  \<open>\<rho>\<^sub>3\<close>: the loop over \<^verbatim>\<open>zip(xk, holds)\<close>, the loop over \<^verbatim>\<open>xjk\<close> with its
  assertion, and the loop over \<^verbatim>\<open>enumerate(xijk)\<close>.
\<close>

fun streett_rho_3k ::
  "'v symbolic \<Rightarrow> 'v pred automaton \<Rightarrow> ('v pred \<times> 'v pred) list \<Rightarrow> 'v pred \<Rightarrow> 'v pred \<Rightarrow>
     'v pred \<times> 'v pred" where
  "streett_rho_3k K aut [] used rho_3j = (used, rho_3j)"
| "streett_rho_3k K aut ((x, hold) # xhs) used rho_3j =
     (let xstar = controllable_action K x aut;
          stay = x \<inter> - used;
          used = used \<union> x;
          u = stay \<inter> xstar;
          u = u \<inter> hold;
          rho_3j = rho_3j \<union> u
      in streett_rho_3k K aut xhs used rho_3j)"

fun streett_rho_3j ::
  "'v symbolic \<Rightarrow> 'v pred automaton \<Rightarrow> 'v pred list \<Rightarrow> 'v pred list list \<Rightarrow>
     'v pred \<Rightarrow> 'v pred \<Rightarrow> error + 'v pred" where
  "streett_rho_3j K aut holds [] used rho_3j = Inr rho_3j"
| "streett_rho_3j K aut holds (xk # xjk) used rho_3j =
     (if \<not> length xk = length holds then Inl AssertionError
      else
        (let (used, rho_3j) = streett_rho_3k K aut (zip xk holds) used rho_3j
         in streett_rho_3j K aut holds xjk used rho_3j))"

fun streett_rho_3 ::
  "'v symbolic \<Rightarrow> 'v pred automaton \<Rightarrow> string \<Rightarrow> 'v pred list \<Rightarrow> nat \<Rightarrow>
     'v pred list list list \<Rightarrow> 'v pred \<Rightarrow> error + 'v pred" where
  "streett_rho_3 K aut c holds i [] rho_3 = Inr rho_3"
| "streett_rho_3 K aut c holds i (xjk # xijk) rho_3 =
     (let s = expr_advance c i i;
          count = add_expr K aut s
      in case streett_rho_3j K aut holds xjk {} {} of
           Inl e \<Rightarrow> Inl e
         | Inr rho_3j \<Rightarrow>
             (let u = rho_3j \<inter> count;
                  rho_3 = rho_3 \<union> u
              in streett_rho_3 K aut c holds (i + 1) xijk rho_3))"

text \<open>
  The end of both synthesizers, from the limits of the counters on: \<^verbatim>\<open>limits\<close> is the
  expression of the limits, \<^verbatim>\<open>init\<close> the one of the initial value of the counters.
  The game is written at \<^verbatim>\<open>aut.action['impl']\<close> after the assertion on \<^verbatim>\<open>u\<close> and by
  \<^verbatim>\<open>_make_init\<close>; an exception leaves it as it was when raised.
\<close>

definition finish_transducer ::
  "'v symbolic \<Rightarrow> 'v pred \<Rightarrow> string \<Rightarrow> string \<Rightarrow> 'v pred \<Rightarrow> 'v pred automaton \<Rightarrow>
     (error + 'v pred) \<times> 'v pred automaton" where
  "finish_transducer K u limits init winning aut =
     (let env_action = action_env aut;
          u = u \<inter> add_expr K aut limits;
          u = (if \<not> plus_one aut
               then (let u = u \<union> - env_action
                     in if moore aut then forall K aut (varlist_envp aut) u else u)
               else u)
      in if \<not> u \<noteq> {} then (Inl AssertionError, aut)
         else
           (let aut = aut\<lparr>action_impl := Some u\<rparr>
            in if \<not> assert_support_moore K u aut then (Inl AssertionError, aut)
               else
                 (let count = add_expr K aut init
                  in case make_init K count winning aut of
                       (Inl e, aut) \<Rightarrow> (Inl e, aut)
                     | (Inr _, aut) \<Rightarrow>
                         (case action_impl aut of
                            None \<Rightarrow> (Inl KeyError, aut)
                          | Some r \<Rightarrow> (Inr r, aut)))))"

text \<open>
  \<^verbatim>\<open>make_streett_transducer(z, yij, xijk, aut)\<close>.  The call of
  \<^verbatim>\<open>_warn_moore_mealy\<close> only prints.  The counter is declared and appended to
  \<^verbatim>\<open>aut.varlist['sys']\<close> after the assertion of realizability.
\<close>

definition make_streett_transducer ::
  "'v symbolic \<Rightarrow> 'v pred \<Rightarrow> 'v pred list list \<Rightarrow> 'v pred list list list \<Rightarrow>
     'v pred automaton \<Rightarrow> (error + 'v pred) \<times> 'v pred automaton" where
  "make_streett_transducer K z yij xijk aut =
     (let winning = z
      in case is_realizable K winning aut of
           Inl e \<Rightarrow> (Inl e, aut)
         | Inr False \<Rightarrow> (Inl AssertionError, aut)
         | Inr True \<Rightarrow>
             (let n_goals = length (win_goals aut);
                  c = ''_goal'';
                  c_max = int n_goals - 1;
                  aut = declare_variables K aut [(c, 0, c_max)];
                  aut = aut\<lparr>varlist_sys := varlist_sys aut @ [c]\<rparr>;
                  holds = win_holds aut;
                  goals = win_goals aut;
                  rho_1 = switch_goals K aut c (length goals) 0 goals {};
                  zstar = controllable_action K z aut;
                  rho_1 = rho_1 \<inter> zstar
              in case streett_rho_2 K aut c 0 yij {} of
                   Inl e \<Rightarrow> (Inl e, aut)
                 | Inr rho_2 \<Rightarrow>
                     (case streett_rho_3 K aut c holds 0 xijk {} of
                        Inl e \<Rightarrow> (Inl e, aut)
                      | Inr rho_3 \<Rightarrow>
                          (let u = rho_1 \<union> rho_2;
                               u = u \<union> rho_3
                           in finish_transducer K u (expr_range c c_max)
                                (c @ '' = 0'') winning aut))))"

text \<open>
  The expressions of \<^verbatim>\<open>make_rabin_transducer\<close>, with \<open>c\<close> and \<open>w\<close> the names of the
  two counters and \<open>none\<close> the number of persistence sets:
  \<^item> \<open>expr_descend\<close>: \<^verbatim>\<open>({c}' = {c}) /\ ({w}' = {none})\<close>
  \<^item> \<open>expr_unlocked\<close>: \<^verbatim>\<open>({c}' = {c}) /\ ({w} = {none})\<close>
  \<^item> \<open>expr_pick\<close>: \<^verbatim>\<open>{w}' = {i}\<close>
  \<^item> \<open>expr_locked_keep\<close>: \<^verbatim>\<open>({c}' = {c}) /\ ({w} /= {none}) /\ ({w}' = {w})\<close>
  \<^item> \<open>expr_at\<close>: \<^verbatim>\<open>({c} = {j}) /\  ({w} = {i})\<close>, with two spaces after the conjunction
  \<^item> \<open>expr_locked\<close>: \<^verbatim>\<open>({w} /= {none}) /\ ({w}' = {w})\<close>
  \<^item> \<open>expr_is\<close>: \<^verbatim>\<open>{w} = {i}\<close>
  \<^item> \<open>expr_limits\<close>: \<^verbatim>\<open>({w} \in 0..{n_w}) /\ ({c} \in 0..{n_c})\<close>
  \<^item> \<open>expr_init\<close>: \<^verbatim>\<open>({c} = 0) /\ ({w} = {none})\<close>
\<close>

definition expr_descend :: "string \<Rightarrow> string \<Rightarrow> nat \<Rightarrow> string" where
  "expr_descend c w none =
     ''('' @ c @ ''' = '' @ c @ '') '' @ land @ '' ('' @ w @ ''' = '' @ str_nat none @ '')''"

definition expr_unlocked :: "string \<Rightarrow> string \<Rightarrow> nat \<Rightarrow> string" where
  "expr_unlocked c w none =
     ''('' @ c @ ''' = '' @ c @ '') '' @ land @ '' ('' @ w @ '' = '' @ str_nat none @ '')''"

definition expr_pick :: "string \<Rightarrow> nat \<Rightarrow> string" where
  "expr_pick w i = w @ ''' = '' @ str_nat i"

definition expr_locked_keep :: "string \<Rightarrow> string \<Rightarrow> nat \<Rightarrow> string" where
  "expr_locked_keep c w none =
     ''('' @ c @ ''' = '' @ c @ '') '' @ land @ '' ('' @ w @ '' /= '' @ str_nat none @ '') ''
       @ land @ '' ('' @ w @ ''' = '' @ w @ '')''"

definition expr_at :: "string \<Rightarrow> string \<Rightarrow> nat \<Rightarrow> nat \<Rightarrow> string" where
  "expr_at c w i j =
     ''('' @ c @ '' = '' @ str_nat j @ '') '' @ land @ ''  ('' @ w @ '' = '' @ str_nat i @ '')''"

definition expr_locked :: "string \<Rightarrow> nat \<Rightarrow> string" where
  "expr_locked w none =
     ''('' @ w @ '' /= '' @ str_nat none @ '') '' @ land @ '' ('' @ w @ ''' = '' @ w @ '')''"

definition expr_is :: "string \<Rightarrow> nat \<Rightarrow> string" where
  "expr_is w i = w @ '' = '' @ str_nat i"

definition expr_limits :: "string \<Rightarrow> int \<Rightarrow> string \<Rightarrow> int \<Rightarrow> string" where
  "expr_limits w n_w c n_c =
     ''('' @ expr_range w n_w @ '') '' @ land @ '' ('' @ expr_range c n_c @ '')''"

definition expr_init :: "string \<Rightarrow> string \<Rightarrow> nat \<Rightarrow> string" where
  "expr_init c w none =
     ''('' @ c @ '' = 0) '' @ land @ '' ('' @ w @ '' = '' @ str_nat none @ '')''"

text \<open>\<open>\<rho>\<^sub>1\<close> of \<^verbatim>\<open>make_rabin_transducer\<close>: the loop over \<^verbatim>\<open>zk[1:]\<close>.\<close>

fun rabin_rho_1 ::
  "'v symbolic \<Rightarrow> 'v pred automaton \<Rightarrow> 'v pred \<Rightarrow> 'v pred list \<Rightarrow> 'v pred \<Rightarrow> 'v pred \<Rightarrow>
     'v pred" where
  "rabin_rho_1 K aut count [] basin rho_1 = rho_1"
| "rabin_rho_1 K aut count (z # zs) basin rho_1 =
     (let zstar = controllable_action K basin aut;
          rim = z \<inter> - basin;
          u = rim \<inter> zstar;
          u = u \<inter> count;
          rho_1 = rho_1 \<union> u;
          basin = z
      in rabin_rho_1 K aut count zs basin rho_1)"

text \<open>
  Both iterations over \<^verbatim>\<open>enumerate(yi)\<close>, of \<open>\<rho>\<^sub>2\<close> with the expression \<open>expr_pick\<close>
  and of \<open>\<rho>\<^sub>4\<close> with the expression \<open>expr_is\<close>.
\<close>

fun rabin_choose ::
  "'v symbolic \<Rightarrow> 'v pred automaton \<Rightarrow> (nat \<Rightarrow> string) \<Rightarrow> nat \<Rightarrow> 'v pred list \<Rightarrow>
     'v pred \<Rightarrow> 'v pred" where
  "rabin_choose K aut expr i [] v = v"
| "rabin_choose K aut expr i (y # yi) v =
     (let s = expr i;
          count = add_expr K aut s;
          ystar = controllable_action K y aut;
          q = count \<inter> ystar;
          v = v \<union> q
      in rabin_choose K aut expr (i + 1) yi v)"

text \<open>
  \<open>\<rho>\<^sub>3\<close>: the loop over \<^verbatim>\<open>xr[1:]\<close>, the loop over \<^verbatim>\<open>enumerate(zip(xjr, goals))\<close>, in
  which \<^verbatim>\<open>xr[0]\<close> raises on an empty list, and the loop over \<^verbatim>\<open>enumerate(xijr)\<close>.
\<close>

fun rabin_rho_3r ::
  "'v symbolic \<Rightarrow> 'v pred automaton \<Rightarrow> 'v pred list \<Rightarrow> 'v pred \<Rightarrow> 'v pred \<Rightarrow> 'v pred" where
  "rabin_rho_3r K aut [] x_basin p = p"
| "rabin_rho_3r K aut (x # xs) x_basin p =
     (let xstar = controllable_action K x_basin aut;
          q = xstar \<inter> - x_basin;
          q = q \<inter> x;
          p = p \<union> q;
          x_basin = x
      in rabin_rho_3r K aut xs x_basin p)"

fun rabin_rho_3j ::
  "'v symbolic \<Rightarrow> 'v pred automaton \<Rightarrow> string \<Rightarrow> string \<Rightarrow> nat \<Rightarrow> nat \<Rightarrow>
     ('v pred list \<times> 'v pred) list \<Rightarrow> 'v pred \<Rightarrow> error + 'v pred" where
  "rabin_rho_3j K aut c w i j [] v = Inr v"
| "rabin_rho_3j K aut c w i j ((xr, goal) # rest) v =
     (let s = expr_at c w i j;
          count = add_expr K aut s
      in case xr of
           [] \<Rightarrow> Inl IndexError
         | x_basin # xs \<Rightarrow>
             (let p = rabin_rho_3r K aut xs x_basin {};
                  p = p \<inter> count;
                  p = p \<inter> - goal;
                  v = v \<union> p
              in rabin_rho_3j K aut c w i (j + 1) rest v))"

fun rabin_rho_3i ::
  "'v symbolic \<Rightarrow> 'v pred automaton \<Rightarrow> string \<Rightarrow> string \<Rightarrow> 'v pred list \<Rightarrow> nat \<Rightarrow>
     'v pred list list list \<Rightarrow> 'v pred \<Rightarrow> error + 'v pred" where
  "rabin_rho_3i K aut c w goals i [] v = Inr v"
| "rabin_rho_3i K aut c w goals i (xjr # xijr) v =
     (case rabin_rho_3j K aut c w i 0 (zip xjr goals) v of
        Inl e \<Rightarrow> Inl e
      | Inr v \<Rightarrow> rabin_rho_3i K aut c w goals (i + 1) xijr v)"

text \<open>
  The loop over \<^verbatim>\<open>zip(zk, yki, xkijr)\<close>, which accumulates \<open>\<rho>\<^sub>2\<close>, \<open>\<rho>\<^sub>3\<close> and
  \<open>\<rho>\<^sub>4\<close> and moves \<^verbatim>\<open>basin\<close>.
\<close>

fun rabin_rounds ::
  "'v symbolic \<Rightarrow> 'v pred automaton \<Rightarrow> string \<Rightarrow> string \<Rightarrow> nat \<Rightarrow> 'v pred list \<Rightarrow>
     ('v pred \<times> 'v pred list \<times> 'v pred list list list) list \<Rightarrow>
     'v pred \<Rightarrow> 'v pred \<Rightarrow> 'v pred \<Rightarrow> 'v pred \<Rightarrow> error + 'v pred \<times> 'v pred \<times> 'v pred" where
  "rabin_rounds K aut c w none goals [] basin rho_2 rho_3 rho_4 = Inr (rho_2, rho_3, rho_4)"
| "rabin_rounds K aut c w none goals ((z, yi, xijr) # rest) basin rho_2 rho_3 rho_4 =
     (let cox_basin = step K (action_env aut) (action_sys aut) basin aut;
          rim = z \<inter> - basin;
          rim = rim \<inter> - cox_basin;
          count = add_expr K aut (expr_unlocked c w none);
          u = rim \<inter> count;
          v = rabin_choose K aut (expr_pick w) 0 yi {};
          u = u \<inter> v;
          rho_2 = rho_2 \<union> u;
          count = add_expr K aut (expr_locked_keep c w none);
          u = rim \<inter> count
      in case rabin_rho_3i K aut c w goals 0 xijr {} of
           Inl e \<Rightarrow> Inl e
         | Inr v \<Rightarrow>
             (let u = u \<inter> v;
                  rho_3 = rho_3 \<union> u;
                  u = switch_goals K aut c (length goals) 0 goals {};
                  count = add_expr K aut (expr_locked w none);
                  u = u \<inter> count;
                  u = u \<inter> rim;
                  v = rabin_choose K aut (expr_is w) 0 yi {};
                  u = u \<inter> v;
                  rho_4 = rho_4 \<union> u;
                  basin = z
              in rabin_rounds K aut c w none goals rest basin rho_2 rho_3 rho_4))"

text \<open>
  \<^verbatim>\<open>make_rabin_transducer(zk, yki, xkijr, aut)\<close>.  \<^verbatim>\<open>zk[-1]\<close> raises on an empty
  list.  The two counters are declared and appended to \<^verbatim>\<open>aut.varlist['sys']\<close> after
  the assertion of realizability.
\<close>

definition make_rabin_transducer ::
  "'v symbolic \<Rightarrow> 'v pred list \<Rightarrow> 'v pred list list \<Rightarrow> 'v pred list list list list \<Rightarrow>
     'v pred automaton \<Rightarrow> (error + 'v pred) \<times> 'v pred automaton" where
  "make_rabin_transducer K zk yki xkijr aut =
     (case zk of
        [] \<Rightarrow> (Inl IndexError, aut)
      | z0 # zs \<Rightarrow>
          (let winning = last zk
           in case is_realizable K winning aut of
                Inl e \<Rightarrow> (Inl e, aut)
              | Inr False \<Rightarrow> (Inl AssertionError, aut)
              | Inr True \<Rightarrow>
                  (let n_holds = length (win_holds aut);
                       n_goals = length (win_goals aut);
                       w = ''_hold'';
                       c = ''_goal'';
                       n_w = int n_holds - 1 + 1;
                       n_c = int n_goals - 1;
                       aut = declare_variables K aut [(w, 0, n_w), (c, 0, n_c)];
                       aut = aut\<lparr>varlist_sys := varlist_sys aut @ [w, c]\<rparr>;
                       goals = win_goals aut;
                       count = add_expr K aut (expr_descend c w n_holds);
                       rho_1 = rabin_rho_1 K aut count zs z0 {}
                   in case rabin_rounds K aut c w n_holds goals (zip zk (zip yki xkijr))
                             {} {} {} {} of
                        Inl e \<Rightarrow> (Inl e, aut)
                      | Inr (rho_2, rho_3, rho_4) \<Rightarrow>
                          (let u = rho_1 \<union> rho_2;
                               u = u \<union> rho_3;
                               u = u \<union> rho_4
                           in finish_transducer K u (expr_limits w n_w c n_c)
                                (expr_init c w n_holds) winning aut))))"

section \<open>Trivial winning set\<close>

text \<open>
  \<^verbatim>\<open>trivial_winning_set(aut_streett)\<close> takes a game that is not compiled yet: its
  formulas are strings.  \<open>rabin_dual\<close> is the game \<^verbatim>\<open>aut_rabin\<close> that the function
  builds before compiling it: a new game, in which every variable of the Streett game is
  declared with the other owner, the two actions are exchanged, the recurrence goals are
  the negated persistence sets of the Streett game, the blanks are filled, and the
  manager of decision diagrams is the one of the Streett game.  Assigning to
  \<^verbatim>\<open>aut_rabin.vars[var]\<close> replaces the declaration of a variable that is there, and
  adds it at the end otherwise.
\<close>

fun vars_setitem ::
  "string \<Rightarrow> var_decl \<Rightarrow> (string \<times> var_decl) list \<Rightarrow> (string \<times> var_decl) list" where
  "vars_setitem var d [] = [(var, d)]"
| "vars_setitem var d ((var', d') # rest) =
     (if var' = var then (var, d) # rest else (var', d') # vars_setitem var d rest)"

fun swap_owners ::
  "(string \<times> var_decl) list \<Rightarrow> string automaton \<Rightarrow> string automaton" where
  "swap_owners [] aut_rabin = aut_rabin"
| "swap_owners ((var, d) # rest) aut_rabin =
     (let owner = var_owner d;
          owner = (if owner = Sys then Env else Sys);
          d = d\<lparr>var_owner := owner\<rparr>
      in swap_owners rest (aut_rabin\<lparr>vars := vars_setitem var d (vars aut_rabin)\<rparr>))"

definition rabin_dual :: "'v symbolic \<Rightarrow> string automaton \<Rightarrow> string automaton" where
  "rabin_dual K aut_streett =
     (let aut_rabin = new_automaton K;
          aut_rabin = swap_owners (vars aut_streett) aut_rabin;
          aut_rabin = aut_rabin\<lparr>action_env := action_sys aut_streett\<rparr>;
          aut_rabin = aut_rabin\<lparr>action_sys := action_env aut_streett\<rparr>;
          win = map (\<lambda>w. ''!('' @ w @ '')'') (win_holds aut_streett);
          aut_rabin = aut_rabin\<lparr>win_goals := win\<rparr>;
          aut_rabin = fill_blanks K aut_rabin True;
          aut_rabin = aut_rabin\<lparr>bdd_vars := bdd_vars aut_streett\<rparr>
      in aut_rabin)"

definition trivial_winning_set ::
  "'v::finite symbolic \<Rightarrow> string automaton \<Rightarrow> error + 'v pred \<times> 'v pred automaton" where
  "trivial_winning_set K aut_streett =
     (let aut_rabin = rabin_dual K aut_streett;
          aut_streett = build K aut_streett;
          aut_rabin = build K aut_rabin
      in case solve_streett_game K aut_streett 1 of
           Inl e \<Rightarrow> Inl e
         | Inr (win_streett, _, _) \<Rightarrow>
             (case solve_rabin_game K aut_rabin 1 of
                Inl e \<Rightarrow> Inl e
              | Inr (zk, _, _) \<Rightarrow>
                  (case zk of
                     [] \<Rightarrow> Inl IndexError
                   | _ # _ \<Rightarrow>
                       (let win_rabin = last zk;
                            trivial = win_streett \<inter> - win_rabin
                        in Inr (trivial, aut_streett)))))"

section \<open>A kernel over two Boolean variables\<close>

text \<open>
  The theorems below hold for every record of kernel functions.  To run the solvers on
  concrete games, this section gives one kernel: the decision diagrams over an
  environment variable \<^verbatim>\<open>x\<close>, a system variable \<^verbatim>\<open>y\<close> and their primed
  copies.  A valuation is the pair of the values of \<^verbatim>\<open>(x, y)\<close> and of
  \<^verbatim>\<open>(x', y')\<close>.
\<close>

type_synonym val = "(bool \<times> bool) \<times> (bool \<times> bool)"

definition primed :: "string \<Rightarrow> string" where
  "primed n = n @ [CHR 0x27]"

definition flip_var :: "string \<Rightarrow> val \<Rightarrow> val" where
  "flip_var n v =
     (case v of ((x, y), (xp, yp)) \<Rightarrow>
        if n = ''x'' then ((\<not> x, y), (xp, yp))
        else if n = ''y'' then ((x, \<not> y), (xp, yp))
        else if n = primed ''x'' then ((x, y), (\<not> xp, yp))
        else if n = primed ''y'' then ((x, y), (xp, \<not> yp))
        else v)"

text \<open>
  Modelled from the spec: \<^verbatim>\<open>aut.exist\<close> and \<^verbatim>\<open>aut.forall\<close>, the existential and
  universal quantification over a named variable list of the kernel interface.  A
  predicate holds for some (every) value of a Boolean variable when it holds at the
  valuation or (and) at the valuation with that variable flipped.
\<close>

definition bdd_exist :: "val pred automaton \<Rightarrow> string list \<Rightarrow> val pred \<Rightarrow> val pred" where
  "bdd_exist aut qvars u = fold (\<lambda>n u. {v. v \<in> u \<or> flip_var n v \<in> u}) qvars u"

definition bdd_forall :: "val pred automaton \<Rightarrow> string list \<Rightarrow> val pred \<Rightarrow> val pred" where
  "bdd_forall aut qvars u = fold (\<lambda>n u. {v. v \<in> u \<and> flip_var n v \<in> u}) qvars u"

text \<open>
  Modelled from the spec: \<^verbatim>\<open>sym_bdd.prime\<close>, the substitution of every unprimed
  variable by its primed copy.
\<close>

definition bdd_prime :: "val pred \<Rightarrow> val pred automaton \<Rightarrow> val pred" where
  "bdd_prime u aut = {v. (snd v, snd v) \<in> u}"

text \<open>
  Modelled from the spec: \<^verbatim>\<open>is_state_predicate\<close>, which holds of a predicate whose
  support has unprimed variables only: whether a valuation satisfies it does not depend
  on the primed half of the valuation.
\<close>

definition state_predicate :: "('a \<times> 'b) pred \<Rightarrow> bool" where
  "state_predicate u = (\<forall>v \<in> u. \<forall>t. (fst v, t) \<in> u)"

text \<open>
  Modelled from the spec: \<^verbatim>\<open>fx.step\<close>, the controllable predecessor \<open>CPre\<close>: the
  states from which the system can force the successor into the target.  It has the
  structure of the controllable action and is quantified over the primed variables of
  both players, the system choosing first when it is Moore.
\<close>

definition cpre ::
  "val pred \<Rightarrow> val pred \<Rightarrow> val pred \<Rightarrow> val pred automaton \<Rightarrow> val pred" where
  "cpre env_action sys_action target aut =
     (let u = bdd_prime target aut;
          u = (if plus_one aut then sys_action \<inter> (- env_action \<union> u)
               else - env_action \<union> (sys_action \<inter> u))
      in if moore aut
         then bdd_exist aut (varlist_sysp aut) (bdd_forall aut (varlist_envp aut) u)
         else bdd_forall aut (varlist_envp aut) (bdd_exist aut (varlist_sysp aut) u))"

text \<open>
  Modelled from the spec: \<^verbatim>\<open>fx.trap\<close>, the greatest fixpoint of
  \<open>\<lambda>x. (CPre(x) \<or> unless) \<and> safe\<close>, computed by iteration from the full set until it is
  stable.  Every iterate is intersected with the one before, which changes nothing when
  the operator is monotone and makes the iteration finite in any case.
\<close>

function gfp_loop :: "('v::finite pred \<Rightarrow> 'v pred) \<Rightarrow> 'v pred \<Rightarrow> 'v pred" where
  "gfp_loop f qold = (let q = f qold \<inter> qold in if q \<noteq> qold then gfp_loop f q else q)"
  by pat_completeness auto

termination gfp_loop
proof (relation "measure (\<lambda>(f, qold). card qold)")
  show "wf (measure (\<lambda>(f :: 'a set \<Rightarrow> 'a set, qold :: 'a set). card qold))"
    by simp
next
  fix f :: "'a set \<Rightarrow> 'a set" and qold q :: "'a set"
  assume "q = f qold \<inter> qold" "q \<noteq> qold"
  then show "((f, q), (f, qold)) \<in> measure (\<lambda>(f, qold). card qold)"
    by (simp add: card_less)
qed

declare gfp_loop.simps [simp del]

definition bdd_trap ::
  "val pred \<Rightarrow> val pred \<Rightarrow> val pred \<Rightarrow> val pred automaton \<Rightarrow> val pred \<Rightarrow> val pred" where
  "bdd_trap env_action sys_action safe aut unless =
     gfp_loop (\<lambda>q. (cpre env_action sys_action q aut \<union> unless) \<inter> safe) UNIV"

text \<open>
  Modelled from the spec: \<^verbatim>\<open>aut.add_expr\<close> and \<^verbatim>\<open>aut.build\<close>, on the fragment of
  the expression language with the two constants, the four variables and the negation
  \<^verbatim>\<open>!(e)\<close> that \<^verbatim>\<open>trivial_winning_set\<close> writes.  An expression outside of the
  fragment denotes the empty predicate.  Compiling a game compiles its formulas and
  lists the variables of each player.
\<close>

function compile :: "string \<Rightarrow> val pred" where
  "compile s =
     (if s = ''True'' then UNIV
      else if s = ''False'' then {}
      else if s = ''x'' then {v. fst (fst v)}
      else if s = ''y'' then {v. snd (fst v)}
      else if s = primed ''x'' then {v. fst (snd v)}
      else if s = primed ''y'' then {v. snd (snd v)}
      else if take 2 s = ''!('' \<and> drop (length s - 1) s = '')''
        then - compile (take (length s - 3) (drop 2 s))
      else {})"
  by pat_completeness auto

termination compile
proof (relation "measure length")
  show "wf (measure (length :: string \<Rightarrow> nat))"
    by simp
next
  fix s :: string
  assume "take 2 s = ''!('' \<and> drop (length s - 1) s = '')''"
  then have "length s \<noteq> 0" by auto
  then show "(take (length s - 3) (drop 2 s), s) \<in> measure length"
    by simp
qed

declare compile.simps [simp del]

definition owned :: "owner \<Rightarrow> (string \<times> var_decl) list \<Rightarrow> string list" where
  "owned p vs = map fst (filter (\<lambda>(n, d). var_owner d = p) vs)"

definition bdd_build :: "string automaton \<Rightarrow> val pred automaton" where
  "bdd_build aut =
     \<lparr> vars = vars aut,
       bdd_vars = concat (map (\<lambda>(n, d). [n, primed n]) (vars aut)),
       varlist_env = owned Env (vars aut),
       varlist_sys = owned Sys (vars aut),
       varlist_envp = map primed (owned Env (vars aut)),
       varlist_sysp = map primed (owned Sys (vars aut)),
       action_env = compile (action_env aut),
       action_sys = compile (action_sys aut),
       action_impl = map_option compile (action_impl aut),
       init_env = compile (init_env aut),
       init_sys = compile (init_sys aut),
       init_impl_env = map_option compile (init_impl_env aut),
       init_impl_sys = map_option compile (init_impl_sys aut),
       win_holds = map compile (win_holds aut),
       win_goals = map compile (win_goals aut),
       moore = moore aut,
       plus_one = plus_one aut,
       qinit = qinit aut \<rparr>"

text \<open>
  Modelled from the spec: \<^verbatim>\<open>symbolic.Automaton()\<close> and \<^verbatim>\<open>symbolic.fill_blanks\<close>.
  A new game declares no variable, constrains nothing and has no winning condition;
  filling the blanks gives it the one persistence set and the one recurrence goal that
  a game has at least.
\<close>

definition bdd_new_automaton :: "string automaton" where
  "bdd_new_automaton =
     \<lparr> vars = [], bdd_vars = [],
       varlist_env = [], varlist_sys = [], varlist_envp = [], varlist_sysp = [],
       action_env = ''True'', action_sys = ''True'', action_impl = None,
       init_env = ''True'', init_sys = ''True'', init_impl_env = None, init_impl_sys = None,
       win_holds = [], win_goals = [],
       moore = True, plus_one = True, qinit = qinit_AA \<rparr>"

definition bdd_fill_blanks :: "string automaton \<Rightarrow> bool \<Rightarrow> string automaton" where
  "bdd_fill_blanks aut rabin =
     aut\<lparr>win_holds := (if win_holds aut = [] then [if rabin then ''True'' else ''False'']
                        else win_holds aut),
         win_goals := (if win_goals aut = [] then [''True''] else win_goals aut)\<rparr>"

definition bdd_kernel :: "val symbolic" where
  "bdd_kernel =
     \<lparr> prime = bdd_prime,
       is_state_predicate = state_predicate,
       step = cpre,
       trap = bdd_trap,
       exist = bdd_exist,
       forall = bdd_forall,
       add_expr = (\<lambda>aut s. compile s),
       declare_variables = (\<lambda>aut vrs. aut\<lparr>vars := vars aut @
          map (\<lambda>(n, lo, hi). (n, \<lparr>var_owner = Sys, var_dom = Some (lo, hi)\<rparr>)) vrs\<rparr>),
       assert_support_moore = (\<lambda>u aut. True),
       new_automaton = bdd_new_automaton,
       fill_blanks = bdd_fill_blanks,
       build = bdd_build \<rparr>"

text \<open>
  The first scenario of the specification, with an environment variable added: the
  system owns \<^verbatim>\<open>y\<close>, nothing is constrained, the recurrence goal is \<^verbatim>\<open>y\<close> and
  the persistence set is everything.
\<close>

definition y_true :: "val pred" where
  "y_true = {v. snd (fst v)}"

definition game_src :: "string automaton" where
  "game_src =
     \<lparr> vars = [(''x'', \<lparr>var_owner = Env, var_dom = None\<rparr>),
               (''y'', \<lparr>var_owner = Sys, var_dom = None\<rparr>)],
       bdd_vars = [],
       varlist_env = [], varlist_sys = [], varlist_envp = [], varlist_sysp = [],
       action_env = ''True'', action_sys = ''True'', action_impl = None,
       init_env = ''True'', init_sys = ''True'', init_impl_env = None, init_impl_sys = None,
       win_holds = [''True''], win_goals = [''y''],
       moore = False, plus_one = True, qinit = qinit_AA \<rparr>"

definition game :: "val pred automaton" where
  "game = bdd_build game_src"

text \<open>
  Three variants of the game: one whose persistence set is empty, one whose system has
  no initial state, and one with the initial quantification \<^verbatim>\<open>'\E \A'\<close> in which the
  environment starts where \<^verbatim>\<open>y\<close> holds.
\<close>

definition game_no_hold :: "val pred automaton" where
  "game_no_hold = game\<lparr>win_holds := [{}]\<rparr>"

definition game_no_init :: "val pred automaton" where
  "game_no_init = game\<lparr>init_sys := {}\<rparr>"

definition game_ea :: "val pred automaton" where
  "game_ea = game\<lparr>init_env := y_true, qinit := qinit_EA\<rparr>"

text \<open>A list of predicates that does not decrease along its index.\<close>

definition chain_up :: "'a set list \<Rightarrow> bool" where
  "chain_up xs = (\<forall>l. Suc l < length xs \<longrightarrow> xs ! l \<subseteq> xs ! Suc l)"

section \<open>Properties of the fixpoint iterations\<close>

lemma chain_up_snoc:
  assumes "chain_up xs" "xs \<noteq> [] \<Longrightarrow> last xs \<subseteq> x"
  shows "chain_up (xs @ [x])"
  unfolding chain_up_def
proof (intro allI impI)
  fix l assume l: "Suc l < length (xs @ [x])"
  show "(xs @ [x]) ! l \<subseteq> (xs @ [x]) ! Suc l"
  proof (cases "Suc l < length xs")
    case True
    then show ?thesis using assms(1) by (simp add: chain_up_def nth_append)
  next
    case False
    with l have e: "Suc l = length xs" by simp
    then have ne: "xs \<noteq> []" by auto
    have "xs ! l = last xs" using e ne by (metis diff_Suc_1 last_conv_nth)
    then show ?thesis using assms(2)[OF ne] e by (simp add: nth_append)
  qed
qed

lemma attractor_inside_loop_unfold:
  "attractor_inside_loop K inside goal aut xold xr =
     (if attractor_inside_body K inside goal aut xold \<noteq> xold
      then attractor_inside_loop K inside goal aut (attractor_inside_body K inside goal aut xold)
             (xr @ [attractor_inside_body K inside goal aut xold])
      else (attractor_inside_body K inside goal aut xold,
            xr @ [attractor_inside_body K inside goal aut xold]))"
  by (subst attractor_inside_loop.simps) (simp add: Let_def)

lemma attractor_inside_loop_inv:
  assumes "attractor_inside_loop K inside goal aut x0 xr0 = (x, xr)"
    and "chain_up xr0" and "xr0 \<noteq> [] \<Longrightarrow> last xr0 = x0"
  shows "chain_up xr \<and> xr \<noteq> [] \<and> x = last xr \<and> length xr0 < length xr
    \<and> take (Suc (length xr0)) xr = xr0 @ [attractor_inside_body K inside goal aut x0]
    \<and> (attractor_inside_body K inside goal aut x0 = x0 \<longrightarrow> xr = xr0 @ [x0])"
  using assms
proof (induction K inside goal aut x0 xr0 rule: attractor_inside_loop.induct)
  case (1 K inside goal aut xold xr0)
  let ?x = "attractor_inside_body K inside goal aut xold"
  have ch: "chain_up (xr0 @ [?x])"
    using "1.prems"(2,3) attractor_inside_body_incr [of xold K inside goal aut]
    by (intro chain_up_snoc) auto
  show ?case
  proof (cases "?x = xold")
    case True
    with "1.prems"(1) have "x = ?x" "xr = xr0 @ [?x]"
      by (subst (asm) attractor_inside_loop_unfold, simp)+
    with ch True show ?thesis by simp
  next
    case False
    with "1.prems"(1) have r: "attractor_inside_loop K inside goal aut ?x (xr0 @ [?x]) = (x, xr)"
      by (subst (asm) attractor_inside_loop_unfold) simp
    have "chain_up xr \<and> xr \<noteq> [] \<and> x = last xr \<and> length (xr0 @ [?x]) < length xr
      \<and> take (Suc (length (xr0 @ [?x]))) xr = (xr0 @ [?x]) @ [attractor_inside_body K inside goal aut ?x]
      \<and> (attractor_inside_body K inside goal aut ?x = ?x \<longrightarrow> xr = (xr0 @ [?x]) @ [?x])"
      using "1.IH" [OF refl refl False r ch] by simp
    then have a: "chain_up xr" "xr \<noteq> []" "x = last xr" "length xr0 < length xr"
      and t: "take (Suc (Suc (length xr0))) xr = xr0 @ [?x, attractor_inside_body K inside goal aut ?x]"
      by simp_all
    have "take (Suc (length xr0)) xr = take (Suc (length xr0)) (take (Suc (Suc (length xr0))) xr)"
      by (simp add: min_def)
    also have "\<dots> = xr0 @ [?x]" unfolding t by simp
    finally show ?thesis using a False by simp
  qed
qed

lemma solve_rabin_loop_unfold:
  "solve_rabin_loop K aut zold zk yki xkijr =
     (case solve_rabin_body K aut zold of (z, xijr, yi) \<Rightarrow>
        if z \<noteq> zold
        then solve_rabin_loop K aut z (zk @ [z]) (yki @ [yi]) (xkijr @ [xijr])
        else (z, zk @ [z], yki @ [yi], xkijr @ [xijr]))"
  by (subst solve_rabin_loop.simps) (simp add: Let_def split: prod.splits)

lemma solve_rabin_body_incr: "zold \<subseteq> fst (solve_rabin_body K aut zold)"
  by (simp add: solve_rabin_body_def rabin_holds_incr)

lemma solve_rabin_loop_inv:
  assumes "solve_rabin_loop K aut z0 zk0 yki0 xkijr0 = (z, zk, yki, xkijr)"
    and "chain_up zk0" and "zk0 \<noteq> [] \<Longrightarrow> last zk0 = z0"
  shows "chain_up zk \<and> zk \<noteq> [] \<and> z = last zk"
  using assms
proof (induction K aut z0 zk0 yki0 xkijr0 rule: solve_rabin_loop.induct)
  case (1 K aut zold zk0 yki0 xkijr0)
  obtain z1 xijr yi where b: "solve_rabin_body K aut zold = (z1, xijr, yi)"
    by (cases "solve_rabin_body K aut zold")
  have "zold \<subseteq> z1" using solve_rabin_body_incr [of zold K aut] b by simp
  then have ch: "chain_up (zk0 @ [z1])"
    using "1.prems"(2,3) by (intro chain_up_snoc) auto
  show ?case
  proof (cases "z1 = zold")
    case True
    with "1.prems"(1) b have "z = z1" "zk = zk0 @ [z1]"
      by (subst (asm) solve_rabin_loop_unfold, simp)+
    with ch show ?thesis by simp
  next
    case False
    with "1.prems"(1) b
    have r: "solve_rabin_loop K aut z1 (zk0 @ [z1]) (yki0 @ [yi]) (xkijr0 @ [xijr])
        = (z, zk, yki, xkijr)"
      by (subst (asm) solve_rabin_loop_unfold) simp
    show ?thesis
      using "1.IH" [OF b [symmetric] refl refl refl refl refl False r ch] by simp
  qed
qed

lemma solve_streett_loop_unfold:
  "solve_streett_loop K aut zold =
     (case solve_streett_body K aut zold of (z, yij, xijk) \<Rightarrow>
        if z \<noteq> zold then solve_streett_loop K aut z else (z, yij, xijk))"
  by (subst solve_streett_loop.simps) (simp add: Let_def split: prod.splits)

lemma solve_streett_loop_heads:
  "zold = streett_z K aut m \<Longrightarrow>
     \<exists>n\<ge>m. fst (solve_streett_loop K aut zold) = streett_z K aut n
       \<and> streett_z K aut (Suc n) = streett_z K aut n
       \<and> (\<forall>i. m \<le> i \<and> i < n \<longrightarrow> streett_z K aut (Suc i) \<noteq> streett_z K aut i)"
proof (induction K aut zold arbitrary: m rule: solve_streett_loop.induct)
  case (1 K aut zold)
  obtain z1 yij xijk where b: "solve_streett_body K aut zold = (z1, yij, xijk)"
    by (cases "solve_streett_body K aut zold")
  have z1: "z1 = streett_z K aut (Suc m)" using b "1.prems" by simp
  show ?case
  proof (cases "z1 = zold")
    case True
    then have "fst (solve_streett_loop K aut zold) = zold"
      using b by (subst solve_streett_loop_unfold) simp
    with True z1 "1.prems" show ?thesis by (intro exI [of _ m]) auto
  next
    case False
    have e: "solve_streett_loop K aut zold = solve_streett_loop K aut z1"
      using b False by (subst solve_streett_loop_unfold) simp
    obtain n where n: "Suc m \<le> n" "fst (solve_streett_loop K aut z1) = streett_z K aut n"
      "streett_z K aut (Suc n) = streett_z K aut n"
      "\<forall>i. Suc m \<le> i \<and> i < n \<longrightarrow> streett_z K aut (Suc i) \<noteq> streett_z K aut i"
      using "1.IH" [OF refl b [symmetric] refl False z1] by blast
    have "\<forall>i. m \<le> i \<and> i < n \<longrightarrow> streett_z K aut (Suc i) \<noteq> streett_z K aut i"
    proof (intro allI impI)
      fix i assume i: "m \<le> i \<and> i < n"
      show "streett_z K aut (Suc i) \<noteq> streett_z K aut i"
      proof (cases "i = m")
        case True
        then show ?thesis using False z1 "1.prems" by simp
      next
        case False
        then show ?thesis using i n(4) by simp
      qed
    qed
    with n e show ?thesis by (intro exI [of _ n]) auto
  qed
qed

lemma solve_streett_loop_fix:
  "solve_streett_loop K aut z0 = (z, yij, xijk) \<Longrightarrow> solve_streett_body K aut z = (z, yij, xijk)"
proof (induction K aut z0 rule: solve_streett_loop.induct)
  case (1 K aut zold)
  obtain z1 yij1 xijk1 where b: "solve_streett_body K aut zold = (z1, yij1, xijk1)"
    by (cases "solve_streett_body K aut zold")
  show ?case
  proof (cases "z1 = zold")
    case True
    with "1.prems" b show ?thesis
      by (subst (asm) solve_streett_loop_unfold) auto
  next
    case False
    with "1.prems" b have "solve_streett_loop K aut z1 = (z, yij, xijk)"
      by (subst (asm) solve_streett_loop_unfold) simp
    then show ?thesis using "1.IH" [OF refl b [symmetric] refl False] by simp
  qed
qed

lemma attractor_under_loop_unfold:
  "attractor_under_loop K goal aut yold yj xjk =
     (case attractor_under_body K goal aut yold of (xk, y) \<Rightarrow>
        if y \<noteq> yold then attractor_under_loop K goal aut y (yj @ [y]) (xjk @ [xk])
        else (y, yj @ [y], xjk @ [xk]))"
  by (subst attractor_under_loop.simps) (simp add: Let_def split: prod.splits)

lemma attractor_under_loop_inv:
  assumes "attractor_under_loop K goal aut y0 yj0 xjk0 = (y, yj, xjk)"
    and "chain_up yj0" and "yj0 \<noteq> [] \<Longrightarrow> last yj0 = y0"
  shows "chain_up yj \<and> y = last yj
    \<and> (\<exists>ys. yj = yj0 @ snd (attractor_under_body K goal aut y0) # ys)"
  using assms
proof (induction K goal aut y0 yj0 xjk0 rule: attractor_under_loop.induct)
  case (1 K goal aut yold yj0 xjk0)
  obtain xk y1 where b: "attractor_under_body K goal aut yold = (xk, y1)"
    by (cases "attractor_under_body K goal aut yold")
  have "yold \<subseteq> y1" using attractor_under_body_incr [of yold K goal aut] b by simp
  then have ch: "chain_up (yj0 @ [y1])"
    using "1.prems"(2,3) by (intro chain_up_snoc) auto
  show ?case
  proof (cases "y1 = yold")
    case True
    with "1.prems"(1) b have "y = y1" "yj = yj0 @ [y1]"
      by (subst (asm) attractor_under_loop_unfold, simp)+
    with ch b show ?thesis by simp
  next
    case False
    with "1.prems"(1) b
    have r: "attractor_under_loop K goal aut y1 (yj0 @ [y1]) (xjk0 @ [xk]) = (y, yj, xjk)"
      by (subst (asm) attractor_under_loop_unfold) simp
    have "chain_up yj \<and> y = last yj
      \<and> (\<exists>ys. yj = (yj0 @ [y1]) @ snd (attractor_under_body K goal aut y1) # ys)"
      using "1.IH" [OF b [symmetric] refl refl refl False r ch] by simp
    then show ?thesis using b by auto
  qed
qed

lemma attractor_under_holds_union:
  "snd (attractor_under_holds K unless aut holds xk y) =
     y \<union> (\<Union>safe \<in> set holds. trap K (action_env aut) (action_sys aut) safe aut unless)"
  by (induction holds arbitrary: xk y) (auto simp: Let_def)

lemma attractor_under_assumptions_props:
  assumes "attractor_under_assumptions K goal aut = (y, yj, xjk)"
  shows "chain_up yj \<and> y = last yj \<and> yj \<noteq> []
    \<and> yj ! 0 = snd (attractor_under_body K goal aut {})"
proof -
  have "chain_up yj \<and> y = last yj
    \<and> (\<exists>ys. yj = [] @ snd (attractor_under_body K goal aut {}) # ys)"
    by (rule attractor_under_loop_inv [OF assms [unfolded attractor_under_assumptions_def]])
      (simp_all add: chain_up_def)
  then show ?thesis by auto
qed

lemma streett_goals_yij:
  "fst (snd (streett_goals K cox_z aut goals z xijk yij)) =
     yij @ map (\<lambda>goal. fst (snd (attractor_under_assumptions K (goal \<inter> cox_z) aut))) goals"
proof (induction goals arbitrary: z xijk yij)
  case Nil
  show ?case by simp
next
  case (Cons goal goals)
  obtain y yj xjk where a: "attractor_under_assumptions K (goal \<inter> cox_z) aut = (y, yj, xjk)"
    by (cases "attractor_under_assumptions K (goal \<inter> cox_z) aut")
  show ?case
    by (simp add: a Cons.IH)
qed

lemma solve_streett_yij:
  assumes "solve_streett_game K aut rank = Inr (z, yij, xijk)"
  shows "yij = map (\<lambda>goal. fst (snd (attractor_under_assumptions K
      (goal \<inter> step K (action_env aut) (action_sys aut) z aut) aut))) (win_goals aut)"
proof -
  have l: "solve_streett_loop K aut UNIV = (z, yij, xijk)"
    using assms by (auto simp: solve_streett_game_def split: if_splits prod.splits)
  have "solve_streett_body K aut z = (z, yij, xijk)"
    by (rule solve_streett_loop_fix [OF l])
  then have "fst (snd (streett_goals K (step K (action_env aut) (action_sys aut) z aut) aut
      (win_goals aut) z [] [])) = yij"
    by (simp add: solve_streett_body_def)
  then show ?thesis
    by (simp add: streett_goals_yij)
qed

section \<open>Properties of the initial conditions\<close>

lemma qinit_distinct [simp]:
  "qinit_AA \<noteq> qinit_EE" "qinit_AA \<noteq> qinit_AE" "qinit_AA \<noteq> qinit_EA"
  "qinit_EE \<noteq> qinit_AA" "qinit_EE \<noteq> qinit_AE" "qinit_EE \<noteq> qinit_EA"
  "qinit_AE \<noteq> qinit_AA" "qinit_AE \<noteq> qinit_EE" "qinit_AE \<noteq> qinit_EA"
  "qinit_EA \<noteq> qinit_AA" "qinit_EA \<noteq> qinit_EE" "qinit_EA \<noteq> qinit_AE"
  by (simp_all add: qinit_AA_def qinit_EE_def qinit_AE_def qinit_EA_def backslash_def)

lemma make_init_forall_exist:
  assumes "qinit aut = qinit_AA \<or> qinit aut = qinit_AE \<or> qinit aut = qinit_EE"
  shows "make_init K internal_init win aut =
     (if init_env aut \<inter> (init_sys aut \<inter> internal_init \<inter> win) = {}
         \<or> init_sys aut \<inter> internal_init \<inter> win = {}
      then (Inl AssertionError, aut)
      else (Inr (), aut\<lparr>init_impl_env :=
                Some (init_env aut \<inter> (init_sys aut \<inter> internal_init \<inter> win)),
              init_impl_sys := Some (init_sys aut \<inter> internal_init \<inter> win)\<rparr>))"
proof -
  have c: "(qinit aut = qinit_AA \<or> qinit aut = qinit_AE \<or> qinit aut = qinit_EE) = True"
    using assms by simp
  show ?thesis
    unfolding make_init_def Let_def c by simp
qed

lemma make_init_EA:
  assumes "qinit aut = qinit_EA"
  shows "make_init K internal_init win aut =
     (if exist K aut (varlist_sys aut) (init_env aut)
             \<inter> forall K aut (varlist_env aut)
                 (init_env aut \<inter> (init_sys aut \<inter> internal_init \<inter> win)
                  \<union> - exist K aut (varlist_sys aut) (init_env aut)) = {}
         \<or> init_sys aut \<inter> internal_init \<inter> win = {}
      then (Inl AssertionError, aut)
      else (Inr (), aut\<lparr>init_impl_env :=
                Some (exist K aut (varlist_sys aut) (init_env aut)
             \<inter> forall K aut (varlist_env aut)
                 (init_env aut \<inter> (init_sys aut \<inter> internal_init \<inter> win)
                  \<union> - exist K aut (varlist_sys aut) (init_env aut))),
              init_impl_sys := Some (init_sys aut \<inter> internal_init \<inter> win)\<rparr>))"
  unfolding make_init_def Let_def assms by simp

lemma make_init_unknown:
  assumes "qinit aut \<noteq> qinit_AA" "qinit aut \<noteq> qinit_AE" "qinit aut \<noteq> qinit_EE"
    "qinit aut \<noteq> qinit_EA"
  shows "make_init K internal_init win aut = (Inl ValueError, aut)"
  unfolding make_init_def Let_def using assms by simp

text \<open>
  Both synthesizers end with \<^verbatim>\<open>_make_init\<close>: when one of them returns, the two
  initial predicates it has written are not empty.
\<close>

lemma make_init_returns:
  assumes "make_init K internal_init win aut = (Inr (), aut')"
  shows "\<exists>e s. init_impl_env aut' = Some e \<and> e \<noteq> {} \<and> init_impl_sys aut' = Some s \<and> s \<noteq> {}"
proof -
  consider (fe) "qinit aut = qinit_AA \<or> qinit aut = qinit_AE \<or> qinit aut = qinit_EE"
    | (ea) "qinit aut = qinit_EA"
    | (unknown) "qinit aut \<noteq> qinit_AA" "qinit aut \<noteq> qinit_AE" "qinit aut \<noteq> qinit_EE"
        "qinit aut \<noteq> qinit_EA"
    by blast
  then show ?thesis
  proof cases
    case fe
    show ?thesis
      using assms unfolding make_init_forall_exist [OF fe] by (auto split: if_splits)
  next
    case ea
    show ?thesis
      using assms unfolding make_init_EA [OF ea] by (auto split: if_splits)
  next
    case unknown
    then show ?thesis
      using assms by (simp add: make_init_unknown)
  qed
qed

lemma finish_transducer_init:
  assumes "finish_transducer K u limits init winning aut = (Inr r, aut')"
  shows "\<exists>e s. init_impl_env aut' = Some e \<and> e \<noteq> {} \<and> init_impl_sys aut' = Some s \<and> s \<noteq> {}"
proof -
  obtain aut1 count where
    m: "make_init K count winning aut1 = (Inr (), aut')"
    using assms unfolding finish_transducer_def Let_def
    by (auto split: if_splits prod.splits sum.splits option.splits)
  then show ?thesis
    by (rule make_init_returns)
qed

lemma transducers_init_nonempty:
  assumes "make_streett_transducer K z yij xijk aut = (Inr r, aut')
    \<or> make_rabin_transducer K zk yki xkijr aut = (Inr r, aut')"
  shows "\<exists>e s. init_impl_env aut' = Some e \<and> e \<noteq> {} \<and> init_impl_sys aut' = Some s \<and> s \<noteq> {}"
  using assms
proof
  assume "make_streett_transducer K z yij xijk aut = (Inr r, aut')"
  then obtain u limits init winning aut1 where
    "finish_transducer K u limits init winning aut1 = (Inr r, aut')"
    unfolding make_streett_transducer_def Let_def
    by (auto split: sum.splits bool.splits)
  then show ?thesis
    by (rule finish_transducer_init)
next
  assume "make_rabin_transducer K zk yki xkijr aut = (Inr r, aut')"
  then obtain u limits init winning aut1 where
    "finish_transducer K u limits init winning aut1 = (Inr r, aut')"
    unfolding make_rabin_transducer_def Let_def
    by (auto split: sum.splits bool.splits list.splits prod.splits)
  then show ?thesis
    by (rule finish_transducer_init)
qed

section \<open>State predicates\<close>

lemma state_predicate_Int: "state_predicate u \<Longrightarrow> state_predicate v \<Longrightarrow> state_predicate (u \<inter> v)"
  by (auto simp: state_predicate_def)

lemma state_predicate_Un: "state_predicate u \<Longrightarrow> state_predicate v \<Longrightarrow> state_predicate (u \<union> v)"
  by (auto simp: state_predicate_def)

lemma sp_attractor_under_holds:
  assumes "\<forall>safe unless. state_predicate safe \<longrightarrow> state_predicate unless \<longrightarrow>
      state_predicate (trap K (action_env aut) (action_sys aut) safe aut unless)"
    and "\<forall>h \<in> set holds. state_predicate h" and "state_predicate unless" and "state_predicate y"
  shows "state_predicate (snd (attractor_under_holds K unless aut holds xk y))"
  using assms(2,4)
proof (induction holds arbitrary: xk y)
  case Nil
  then show ?case by simp
next
  case (Cons safe holds)
  let ?x = "trap K (action_env aut) (action_sys aut) safe aut unless"
  have "state_predicate ?x" using assms(1,3) Cons.prems(1) by simp
  then have "state_predicate (y \<union> ?x)" using Cons.prems(2) by (simp add: state_predicate_Un)
  then have "state_predicate (snd (attractor_under_holds K unless aut holds (xk @ [?x]) (y \<union> ?x)))"
    using Cons.IH Cons.prems(1) by simp
  then show ?case by (simp add: Let_def)
qed

lemma sp_attractor_under_body:
  assumes "\<forall>t. state_predicate (step K (action_env aut) (action_sys aut) t aut)"
    and "\<forall>safe unless. state_predicate safe \<longrightarrow> state_predicate unless \<longrightarrow>
      state_predicate (trap K (action_env aut) (action_sys aut) safe aut unless)"
    and "\<forall>h \<in> set (win_holds aut). state_predicate h"
    and "state_predicate goal" and "state_predicate y"
  shows "state_predicate (snd (attractor_under_body K goal aut y))"
proof -
  have "state_predicate (step K (action_env aut) (action_sys aut) y aut \<union> goal)"
    using assms(1,4) by (simp add: state_predicate_Un)
  then show ?thesis
    unfolding attractor_under_body_def Let_def
    by (rule sp_attractor_under_holds [OF assms(2) assms(3) _ assms(5)])
qed

lemma sp_attractor_under_loop:
  assumes "\<forall>y. state_predicate y \<longrightarrow> state_predicate (snd (attractor_under_body K goal aut y))"
    and "state_predicate y0"
  shows "state_predicate (fst (attractor_under_loop K goal aut y0 yj xjk))"
  using assms
proof (induction K goal aut y0 yj xjk rule: attractor_under_loop.induct)
  case (1 K goal aut yold yj xjk)
  obtain xk y1 where b: "attractor_under_body K goal aut yold = (xk, y1)"
    by (cases "attractor_under_body K goal aut yold")
  have s: "state_predicate y1" using "1.prems" b by auto
  show ?case
  proof (cases "y1 = yold")
    case True
    then show ?thesis using b s by (subst attractor_under_loop_unfold) simp
  next
    case False
    have "state_predicate (fst (attractor_under_loop K goal aut y1 (yj @ [y1]) (xjk @ [xk])))"
      using "1.IH" [OF b [symmetric] refl refl refl False "1.prems"(1) s] by simp
    then show ?thesis using b False by (subst attractor_under_loop_unfold) simp
  qed
qed

lemma sp_streett_goals:
  assumes "\<forall>t. state_predicate (step K (action_env aut) (action_sys aut) t aut)"
    and "\<forall>safe unless. state_predicate safe \<longrightarrow> state_predicate unless \<longrightarrow>
      state_predicate (trap K (action_env aut) (action_sys aut) safe aut unless)"
    and "\<forall>h \<in> set (win_holds aut). state_predicate h"
    and "state_predicate cox_z"
    and "\<forall>g \<in> set goals. state_predicate g" and "state_predicate z"
  shows "state_predicate (fst (streett_goals K cox_z aut goals z xijk yij))"
  using assms(5,6)
proof (induction goals arbitrary: z xijk yij)
  case Nil
  then show ?case by simp
next
  case (Cons goal goals)
  obtain y yj xjk where a: "attractor_under_assumptions K (goal \<inter> cox_z) aut = (y, yj, xjk)"
    by (cases "attractor_under_assumptions K (goal \<inter> cox_z) aut")
  have g: "state_predicate (goal \<inter> cox_z)"
    using Cons.prems(1) assms(4) by (simp add: state_predicate_Int)
  have b: "\<forall>y. state_predicate y \<longrightarrow>
      state_predicate (snd (attractor_under_body K (goal \<inter> cox_z) aut y))"
    using sp_attractor_under_body [OF assms(1) assms(2) assms(3) g] by blast
  have "state_predicate (fst (attractor_under_loop K (goal \<inter> cox_z) aut {} [] []))"
    by (rule sp_attractor_under_loop [OF b]) (simp add: state_predicate_def)
  then have "state_predicate y"
    using a by (simp add: attractor_under_assumptions_def)
  then have "state_predicate (z \<inter> y)"
    using Cons.prems(2) by (simp add: state_predicate_Int)
  then have "state_predicate (fst (streett_goals K cox_z aut goals (z \<inter> y) (xijk @ [xjk])
      (yij @ [yj])))"
    using Cons.IH Cons.prems(1) by simp
  then show ?case by (simp add: a)
qed

lemma sp_solve_streett_loop:
  assumes "\<forall>z. state_predicate z \<longrightarrow> state_predicate (fst (solve_streett_body K aut z))"
    and "state_predicate z0"
  shows "state_predicate (fst (solve_streett_loop K aut z0))"
  using assms
proof (induction K aut z0 rule: solve_streett_loop.induct)
  case (1 K aut zold)
  obtain z1 yij xijk where b: "solve_streett_body K aut zold = (z1, yij, xijk)"
    by (cases "solve_streett_body K aut zold")
  have s: "state_predicate z1" using "1.prems" b by auto
  show ?case
  proof (cases "z1 = zold")
    case True
    then show ?thesis using b s by (subst solve_streett_loop_unfold) simp
  next
    case False
    have "state_predicate (fst (solve_streett_loop K aut z1))"
      using "1.IH" [OF refl b [symmetric] refl False "1.prems"(1) s] by simp
    then show ?thesis using b False by (subst solve_streett_loop_unfold) simp
  qed
qed

lemma sp_streett:
  assumes "\<forall>t. state_predicate (step K (action_env aut) (action_sys aut) t aut)"
    and "\<forall>safe unless. state_predicate safe \<longrightarrow> state_predicate unless \<longrightarrow>
      state_predicate (trap K (action_env aut) (action_sys aut) safe aut unless)"
    and "\<forall>h \<in> set (win_holds aut). state_predicate h"
    and "\<forall>g \<in> set (win_goals aut). state_predicate g"
  shows "state_predicate (fst (solve_streett_loop K aut UNIV))"
proof -
  have "state_predicate (fst (solve_streett_body K aut z))" if z: "state_predicate z" for z
  proof -
    have "state_predicate (step K (action_env aut) (action_sys aut) z aut)"
      using assms(1) by simp
    then show ?thesis
      unfolding solve_streett_body_def Let_def
      by (rule sp_streett_goals [OF assms(1) assms(2) assms(3) _ assms(4) z])
  qed
  then have b: "\<forall>z. state_predicate z \<longrightarrow> state_predicate (fst (solve_streett_body K aut z))"
    by blast
  show ?thesis
    by (rule sp_solve_streett_loop [OF b]) (simp add: state_predicate_def)
qed

lemma sp_attractor_inside_loop:
  assumes "\<forall>x. state_predicate x \<longrightarrow> state_predicate (attractor_inside_body K inside goal aut x)"
    and "state_predicate x0"
  shows "state_predicate (fst (attractor_inside_loop K inside goal aut x0 xr))"
  using assms
proof (induction K inside goal aut x0 xr rule: attractor_inside_loop.induct)
  case (1 K inside goal aut xold xr)
  let ?x = "attractor_inside_body K inside goal aut xold"
  have s: "state_predicate ?x" using "1.prems" by simp
  show ?case
  proof (cases "?x = xold")
    case True
    then show ?thesis using s by (subst attractor_inside_loop_unfold) simp
  next
    case False
    have "state_predicate (fst (attractor_inside_loop K inside goal aut ?x (xr @ [?x])))"
      using "1.IH" [OF refl refl False "1.prems"(1) s] by simp
    then show ?thesis using False by (subst attractor_inside_loop_unfold) simp
  qed
qed

lemma sp_attractor_inside:
  assumes "\<forall>t. state_predicate (step K (action_env aut) (action_sys aut) t aut)"
    and "state_predicate inside" and "state_predicate goal"
  shows "state_predicate (fst (attractor_inside K inside goal aut))"
proof -
  have b: "\<forall>x. state_predicate x \<longrightarrow> state_predicate (attractor_inside_body K inside goal aut x)"
    unfolding attractor_inside_body_def Let_def
    using assms by (simp add: state_predicate_Un state_predicate_Int)
  show ?thesis
    unfolding attractor_inside_def
    by (rule sp_attractor_inside_loop [OF b]) (simp add: state_predicate_def)
qed

lemma sp_cycle_inside_goals:
  assumes "\<forall>t. state_predicate (step K (action_env aut) (action_sys aut) t aut)"
    and "state_predicate inside"
    and "\<forall>g \<in> set goals. state_predicate g" and "state_predicate y"
  shows "state_predicate (fst (cycle_inside_goals K inside aut goals y xjr))"
  using assms(3,4)
proof (induction goals arbitrary: y xjr)
  case Nil
  then show ?case by simp
next
  case (Cons goal goals)
  obtain x xr where a: "attractor_inside K inside goal aut = (x, xr)"
    by (cases "attractor_inside K inside goal aut")
  have "state_predicate goal" using Cons.prems(1) by simp
  then have "state_predicate (fst (attractor_inside K inside goal aut))"
    by (rule sp_attractor_inside [OF assms(1) assms(2)])
  then have "state_predicate (y \<inter> x)"
    using a Cons.prems(2) by (simp add: state_predicate_Int)
  then have "state_predicate (fst (cycle_inside_goals K inside aut goals (y \<inter> x) (xjr @ [xr])))"
    using Cons.IH Cons.prems(1) by simp
  then show ?case by (simp add: a)
qed

lemma cycle_inside_loop_unfold:
  "cycle_inside_loop K g aut yold =
     (case cycle_inside_body K g aut yold of (y, xjr) \<Rightarrow>
        if y \<noteq> yold then cycle_inside_loop K g aut y else (y, xjr))"
  by (subst cycle_inside_loop.simps) (simp add: Let_def split: prod.splits)

lemma sp_cycle_inside_loop:
  assumes "\<forall>y. state_predicate y \<longrightarrow> state_predicate (fst (cycle_inside_body K g aut y))"
    and "state_predicate y0"
  shows "state_predicate (fst (cycle_inside_loop K g aut y0))"
  using assms
proof (induction K g aut y0 rule: cycle_inside_loop.induct)
  case (1 K g aut yold)
  obtain y1 xjr where b: "cycle_inside_body K g aut yold = (y1, xjr)"
    by (cases "cycle_inside_body K g aut yold")
  have s: "state_predicate y1" using "1.prems" b by auto
  show ?case
  proof (cases "y1 = yold")
    case True
    then show ?thesis using b s by (subst cycle_inside_loop_unfold) simp
  next
    case False
    have "state_predicate (fst (cycle_inside_loop K g aut y1))"
      using "1.IH" [OF b [symmetric] refl False "1.prems"(1) s] by simp
    then show ?thesis using b False by (subst cycle_inside_loop_unfold) simp
  qed
qed

lemma sp_cycle_inside:
  assumes "\<forall>t. state_predicate (step K (action_env aut) (action_sys aut) t aut)"
    and "\<forall>g \<in> set (win_goals aut). state_predicate g"
    and "state_predicate hold"
  shows "state_predicate (fst (cycle_inside K z hold aut))"
proof -
  let ?g = "step K (action_env aut) (action_sys aut) z aut \<union> hold"
  have "state_predicate (fst (cycle_inside_body K ?g aut y))" if y: "state_predicate y" for y
  proof -
    have "state_predicate (step K (action_env aut) (action_sys aut) y aut \<inter> ?g)"
      using assms(1,3) by (simp add: state_predicate_Un state_predicate_Int)
    then show ?thesis
      unfolding cycle_inside_body_def Let_def
      by (rule sp_cycle_inside_goals [OF assms(1) _ assms(2) y])
  qed
  then have b: "\<forall>y. state_predicate y \<longrightarrow> state_predicate (fst (cycle_inside_body K ?g aut y))"
    by blast
  show ?thesis
    unfolding cycle_inside_def Let_def
    by (rule sp_cycle_inside_loop [OF b]) (simp add: state_predicate_def)
qed

lemma sp_rabin_holds:
  assumes "\<forall>t. state_predicate (step K (action_env aut) (action_sys aut) t aut)"
    and "\<forall>g \<in> set (win_goals aut). state_predicate g"
    and "\<forall>h \<in> set holds. state_predicate h" and "state_predicate z"
  shows "state_predicate (fst (rabin_holds K zold aut holds z xijr yi))"
  using assms(3,4)
proof (induction holds arbitrary: z xijr yi)
  case Nil
  then show ?case by simp
next
  case (Cons hold holds)
  obtain y xjr where c: "cycle_inside K zold hold aut = (y, xjr)"
    by (cases "cycle_inside K zold hold aut")
  have "state_predicate hold" using Cons.prems(1) by simp
  then have "state_predicate (fst (cycle_inside K zold hold aut))"
    by (rule sp_cycle_inside [OF assms(1) assms(2)])
  then have "state_predicate (z \<union> y)"
    using c Cons.prems(2) by (simp add: state_predicate_Un)
  then have "state_predicate (fst (rabin_holds K zold aut holds (z \<union> y) (xijr @ [xjr])
      (yi @ [y])))"
    using Cons.IH Cons.prems(1) by simp
  then show ?case by (simp add: c)
qed

lemma sp_solve_rabin_loop:
  assumes "\<forall>z. state_predicate z \<longrightarrow> state_predicate (fst (solve_rabin_body K aut z))"
    and "state_predicate z0"
  shows "state_predicate (fst (solve_rabin_loop K aut z0 zk yki xkijr))"
  using assms
proof (induction K aut z0 zk yki xkijr rule: solve_rabin_loop.induct)
  case (1 K aut zold zk yki xkijr)
  obtain z1 xijr yi where b: "solve_rabin_body K aut zold = (z1, xijr, yi)"
    by (cases "solve_rabin_body K aut zold")
  have s: "state_predicate z1" using "1.prems" b by auto
  show ?case
  proof (cases "z1 = zold")
    case True
    then show ?thesis using b s by (subst solve_rabin_loop_unfold) simp
  next
    case False
    have "state_predicate (fst (solve_rabin_loop K aut z1 (zk @ [z1]) (yki @ [yi])
        (xkijr @ [xijr])))"
      using "1.IH" [OF b [symmetric] refl refl refl refl refl False "1.prems"(1) s] by simp
    then show ?thesis using b False by (subst solve_rabin_loop_unfold) simp
  qed
qed

lemma sp_rabin:
  assumes "\<forall>t. state_predicate (step K (action_env aut) (action_sys aut) t aut)"
    and "\<forall>h \<in> set (win_holds aut). state_predicate h"
    and "\<forall>g \<in> set (win_goals aut). state_predicate g"
  shows "state_predicate (fst (solve_rabin_loop K aut {} [] [] []))"
proof -
  have "state_predicate (fst (solve_rabin_body K aut z))" if z: "state_predicate z" for z
    unfolding solve_rabin_body_def
    by (rule sp_rabin_holds [OF assms(1) assms(3) assms(2) z])
  then have b: "\<forall>z. state_predicate z \<longrightarrow> state_predicate (fst (solve_rabin_body K aut z))"
    by blast
  show ?thesis
    by (rule sp_solve_rabin_loop [OF b]) (simp add: state_predicate_def)
qed

section \<open>Evaluation on the kernel over two Boolean variables\<close>

lemma bdd_exist_UNIV [simp]: "bdd_exist aut qvars UNIV = UNIV"
  by (induction qvars) (simp_all add: bdd_exist_def)

lemma bdd_exist_empty [simp]: "bdd_exist aut qvars {} = {}"
  by (induction qvars) (simp_all add: bdd_exist_def)

lemma bdd_forall_UNIV [simp]: "bdd_forall aut qvars UNIV = UNIV"
  by (induction qvars) (simp_all add: bdd_forall_def)

lemma bdd_forall_empty [simp]: "bdd_forall aut qvars {} = {}"
  by (induction qvars) (simp_all add: bdd_forall_def)

lemma bdd_prime_UNIV [simp]: "bdd_prime UNIV aut = UNIV"
  by (simp add: bdd_prime_def)

lemma bdd_prime_empty [simp]: "bdd_prime {} aut = {}"
  by (simp add: bdd_prime_def)

lemma cpre_UNIV [simp]: "cpre UNIV UNIV UNIV aut = UNIV"
  by (simp add: cpre_def)

lemma cpre_empty [simp]: "cpre UNIV UNIV {} aut = {}"
  by (simp add: cpre_def)

lemma gfp_loop_UNIV: "f UNIV = UNIV \<Longrightarrow> gfp_loop f UNIV = UNIV"
  by (subst gfp_loop.simps) simp

lemma bdd_trap_UNIV [simp]: "bdd_trap UNIV UNIV UNIV aut unless = UNIV"
  by (simp add: bdd_trap_def gfp_loop_UNIV)

lemma bdd_kernel_simps [simp]:
  "prime bdd_kernel = bdd_prime" "is_state_predicate bdd_kernel = state_predicate"
  "step bdd_kernel = cpre" "trap bdd_kernel = bdd_trap" "exist bdd_kernel = bdd_exist"
  "forall bdd_kernel = bdd_forall" "add_expr bdd_kernel = (\<lambda>aut s. compile s)"
  "new_automaton bdd_kernel = bdd_new_automaton" "fill_blanks bdd_kernel = bdd_fill_blanks"
  "build bdd_kernel = bdd_build"
  by (simp_all add: bdd_kernel_def)

lemma compile_True [simp]: "compile ''True'' = UNIV"
  by (subst compile.simps) simp

lemma compile_y [simp]: "compile ''y'' = y_true"
  by (subst compile.simps) (simp add: y_true_def)

lemma compile_not_True [simp]: "compile ''!(True)'' = {}"
  by (subst compile.simps) (simp add: primed_def)

lemma game_simps [simp]:
  "action_env game = UNIV" "action_sys game = UNIV"
  "init_env game = UNIV" "init_sys game = UNIV"
  "win_holds game = [UNIV]" "win_goals game = [y_true]"
  "moore game = False" "plus_one game = True" "qinit game = qinit_AA"
  "varlist_env game = [''x'']" "varlist_sys game = [''y'']"
  "varlist_envp game = [primed ''x'']" "varlist_sysp game = [primed ''y'']"
  "bdd_vars game = [''x'', primed ''x'', ''y'', primed ''y'']"
  by (simp_all add: game_def bdd_build_def game_src_def owned_def)

lemma y_true_not_empty [simp]: "y_true \<noteq> {}" "{} \<noteq> y_true"
  by (auto simp: y_true_def)

lemma y_true_not_UNIV [simp]: "y_true \<noteq> UNIV" "UNIV \<noteq> y_true"
proof -
  have "((False, False), (False, False)) \<notin> y_true"
    by (simp add: y_true_def)
  then show "y_true \<noteq> UNIV" "UNIV \<noteq> y_true"
    by blast+
qed

lemma cpre_y_true [simp]: "cpre UNIV UNIV y_true game = UNIV"
  by (auto simp: cpre_def bdd_prime_def bdd_exist_def bdd_forall_def y_true_def flip_var_def
      primed_def)

lemma state_predicate_UNIV [simp]: "state_predicate UNIV"
  by (simp add: state_predicate_def)

lemma state_predicate_empty [simp]: "state_predicate {}"
  by (simp add: state_predicate_def)

lemma attractor_under_game:
  "attractor_under_assumptions bdd_kernel goal game = (UNIV, [UNIV, UNIV], [[UNIV], [UNIV]])"
proof -
  have b: "attractor_under_body bdd_kernel goal game y = ([UNIV], UNIV)" for y
    by (simp add: attractor_under_body_def)
  show ?thesis
    unfolding attractor_under_assumptions_def
    by (subst attractor_under_loop.simps, simp add: b)+
qed

lemma solve_streett_game_eval:
  "solve_streett_game bdd_kernel game 1 = Inr (UNIV, [[UNIV, UNIV]], [[[UNIV], [UNIV]]])"
proof -
  have b: "solve_streett_body bdd_kernel game UNIV = (UNIV, [[UNIV, UNIV]], [[[UNIV], [UNIV]]])"
    by (simp add: solve_streett_body_def attractor_under_game)
  have "solve_streett_loop bdd_kernel game UNIV = (UNIV, [[UNIV, UNIV]], [[[UNIV], [UNIV]]])"
    by (subst solve_streett_loop.simps) (simp add: b)
  then show ?thesis
    by (simp add: solve_streett_game_def)
qed

lemma attractor_inside_game:
  "attractor_inside bdd_kernel UNIV y_true game = (UNIV, [y_true, UNIV, UNIV])"
proof -
  have b: "attractor_inside_body bdd_kernel UNIV y_true game {} = y_true"
    "attractor_inside_body bdd_kernel UNIV y_true game y_true = UNIV"
    "attractor_inside_body bdd_kernel UNIV y_true game UNIV = UNIV"
    by (simp_all add: attractor_inside_body_def)
  show ?thesis
    unfolding attractor_inside_def
    by (subst attractor_inside_loop.simps, simp add: b)+
qed

lemma cycle_inside_game:
  "cycle_inside bdd_kernel z UNIV game = (UNIV, [[y_true, UNIV, UNIV]])"
proof -
  have b: "cycle_inside_body bdd_kernel UNIV game UNIV = (UNIV, [[y_true, UNIV, UNIV]])"
    by (simp add: cycle_inside_body_def attractor_inside_game)
  show ?thesis
    unfolding cycle_inside_def
    by (subst cycle_inside_loop.simps) (simp add: b)
qed

lemma solve_rabin_game_eval:
  "solve_rabin_game bdd_kernel game 1 =
     Inr ([UNIV, UNIV], [[UNIV], [UNIV]],
          [[[[y_true, UNIV, UNIV]]], [[[y_true, UNIV, UNIV]]]])"
proof -
  have b: "solve_rabin_body bdd_kernel game z = (UNIV, [[[y_true, UNIV, UNIV]]], [UNIV])" for z
    by (simp add: solve_rabin_body_def cycle_inside_game)
  have "solve_rabin_loop bdd_kernel game {} [] [] [] =
     (UNIV, [UNIV, UNIV], [[UNIV], [UNIV]],
          [[[[y_true, UNIV, UNIV]]], [[[y_true, UNIV, UNIV]]]])"
    by (subst solve_rabin_loop.simps, simp add: b)+
  then show ?thesis
    by (simp add: solve_rabin_game_def)
qed

lemma game_no_init_simps [simp]:
  "action_env game_no_init = UNIV" "action_sys game_no_init = UNIV"
  "init_env game_no_init = UNIV" "init_sys game_no_init = {}"
  "qinit game_no_init = qinit_AA"
  by (simp_all add: game_no_init_def)

lemma game_ea_simps [simp]:
  "init_env game_ea = y_true" "init_sys game_ea = UNIV" "qinit game_ea = qinit_EA"
  "varlist_env game_ea = [''x'']" "varlist_sys game_ea = [''y'']"
  by (simp_all add: game_ea_def)

lemma exist_y_true [simp]: "bdd_exist aut [''y''] y_true = UNIV"
  by (auto simp: bdd_exist_def y_true_def flip_var_def)

lemma forall_x_y_true [simp]: "bdd_forall aut [''x''] y_true = y_true"
  by (auto simp: bdd_forall_def y_true_def flip_var_def)

lemma is_realizable_no_init: "is_realizable bdd_kernel UNIV game_no_init = Inr False"
  by (simp add: is_realizable_def)

lemma make_init_game:
  "make_init bdd_kernel UNIV UNIV game =
     (Inr (), game\<lparr>init_impl_env := Some UNIV, init_impl_sys := Some UNIV\<rparr>)"
  by (simp add: make_init_forall_exist)

lemma make_init_game_no_init:
  "make_init bdd_kernel UNIV UNIV game_no_init = (Inl AssertionError, game_no_init)"
  by (simp add: make_init_forall_exist)

lemma make_init_game_ea:
  "make_init bdd_kernel UNIV UNIV game_ea =
     (Inr (), game_ea\<lparr>init_impl_env := Some y_true, init_impl_sys := Some UNIV\<rparr>)"
  by (simp add: make_init_EA)

lemma controllable_action_y_true:
  "controllable_action bdd_kernel y_true game = bdd_prime y_true game"
  by (simp add: controllable_action_def)

lemma bdd_prime_y_true_not_state: "\<not> state_predicate (bdd_prime y_true game)"
proof
  assume s: "state_predicate (bdd_prime y_true game)"
  have "((False, False), (False, True)) \<in> bdd_prime y_true game"
    by (simp add: bdd_prime_def y_true_def)
  with s have "(fst ((False, False), (False, True)), (False, False)) \<in> bdd_prime y_true game"
    unfolding state_predicate_def by blast
  then show False
    by (simp add: bdd_prime_def y_true_def)
qed

lemma forall_exist_primed:
  "v \<in> bdd_forall aut [primed ''x''] (bdd_exist aut [primed ''y''] u) \<longleftrightarrow>
     (\<forall>a. \<exists>b. (fst v, (a, b)) \<in> u)"
proof -
  obtain x y xp yp where v: "v = ((x, y), (xp, yp))"
    by (metis surj_pair)
  have 1: "(\<forall>a. \<exists>b. P a b) \<longleftrightarrow> (P xp yp \<or> P xp (\<not> yp)) \<and> (P (\<not> xp) yp \<or> P (\<not> xp) (\<not> yp))"
    for P :: "bool \<Rightarrow> bool \<Rightarrow> bool"
    by (cases xp; cases yp) (auto simp: all_bool_eq ex_bool_eq)
  show ?thesis
    unfolding v
    by (subst 1) (simp add: bdd_exist_def bdd_forall_def flip_var_def primed_def)
qed

lemma exist_forall_primed:
  "v \<in> bdd_exist aut [primed ''y''] (bdd_forall aut [primed ''x''] u) \<longleftrightarrow>
     (\<exists>b. \<forall>a. (fst v, (a, b)) \<in> u)"
proof -
  obtain x y xp yp where v: "v = ((x, y), (xp, yp))"
    by (metis surj_pair)
  have 1: "(\<exists>b. \<forall>a. P a b) \<longleftrightarrow> (P xp yp \<and> P (\<not> xp) yp) \<or> (P xp (\<not> yp) \<and> P (\<not> xp) (\<not> yp))"
    for P :: "bool \<Rightarrow> bool \<Rightarrow> bool"
    by (cases xp; cases yp) (auto simp: all_bool_eq ex_bool_eq)
  show ?thesis
    unfolding v
    by (subst 1) (simp add: bdd_exist_def bdd_forall_def flip_var_def primed_def)
qed

lemma cpre_state:
  assumes "varlist_envp aut = [primed ''x'']" "varlist_sysp aut = [primed ''y'']"
  shows "state_predicate (cpre env_action sys_action t aut)"
  unfolding state_predicate_def cpre_def Let_def assms
  by (simp add: forall_exist_primed exist_forall_primed)

lemma gfp_loop_unfold:
  "gfp_loop f qold = (if f qold \<inter> qold \<noteq> qold then gfp_loop f (f qold \<inter> qold) else f qold \<inter> qold)"
  by (subst gfp_loop.simps) (simp add: Let_def)

lemma sp_gfp_loop:
  assumes "\<forall>q. state_predicate q \<longrightarrow> state_predicate (f q)" and "state_predicate q0"
  shows "state_predicate (gfp_loop f q0)"
  using assms
proof (induction f q0 rule: gfp_loop.induct)
  case (1 f qold)
  have s: "state_predicate (f qold \<inter> qold)"
    using "1.prems" by (simp add: state_predicate_Int)
  show ?case
  proof (cases "f qold \<inter> qold = qold")
    case True
    then show ?thesis using s by (subst gfp_loop_unfold) simp
  next
    case False
    have "state_predicate (gfp_loop f (f qold \<inter> qold))"
      using "1.IH" [OF refl False "1.prems"(1) s] .
    then show ?thesis using False by (subst gfp_loop_unfold) simp
  qed
qed

lemma bdd_trap_state:
  assumes "varlist_envp aut = [primed ''x'']" "varlist_sysp aut = [primed ''y'']"
    and "state_predicate safe" "state_predicate unless"
  shows "state_predicate (bdd_trap env_action sys_action safe aut unless)"
  unfolding bdd_trap_def
  by (rule sp_gfp_loop)
    (simp_all add: cpre_state assms state_predicate_Int state_predicate_Un)

text \<open>
  On every game compiled over the two variables, whose recurrence goals and persistence
  sets are state predicates, both solvers compute state predicates.
\<close>

lemma bdd_kernel_state_predicates:
  assumes "varlist_envp aut = [primed ''x'']" "varlist_sysp aut = [primed ''y'']"
    and "\<forall>h \<in> set (win_holds aut). state_predicate h"
    and "\<forall>g \<in> set (win_goals aut). state_predicate g"
  shows "state_predicate (fst (solve_streett_loop bdd_kernel aut UNIV))
    \<and> state_predicate (fst (solve_rabin_loop bdd_kernel aut {} [] [] []))"
proof -
  have 2: "\<forall>t. state_predicate (step bdd_kernel (action_env aut) (action_sys aut) t aut)"
    by (simp add: cpre_state assms)
  have 3: "\<forall>safe unless. state_predicate safe \<longrightarrow> state_predicate unless \<longrightarrow>
      state_predicate (trap bdd_kernel (action_env aut) (action_sys aut) safe aut unless)"
    by (simp add: bdd_trap_state assms)
  show ?thesis
    using sp_streett [OF 2 3 assms(3) assms(4)] sp_rabin [OF 2 assms(3) assms(4)] by simp
qed

lemma y_true_state [simp]: "state_predicate y_true"
  by (simp add: state_predicate_def y_true_def)

lemma rabin_dual_game_src:
  "rabin_dual bdd_kernel game_src =
     bdd_new_automaton\<lparr>
       vars := [(''x'', \<lparr>var_owner = Sys, var_dom = None\<rparr>),
                (''y'', \<lparr>var_owner = Env, var_dom = None\<rparr>)],
       win_holds := [''True''], win_goals := [''!(True)'']\<rparr>"
  by (simp add: rabin_dual_def game_src_def bdd_new_automaton_def bdd_fill_blanks_def)

lemma dual_simps [simp]:
  "action_env (bdd_build (rabin_dual bdd_kernel game_src)) = UNIV"
  "action_sys (bdd_build (rabin_dual bdd_kernel game_src)) = UNIV"
  "win_holds (bdd_build (rabin_dual bdd_kernel game_src)) = [UNIV]"
  "win_goals (bdd_build (rabin_dual bdd_kernel game_src)) = [{}]"
  "bdd_vars (bdd_build (rabin_dual bdd_kernel game_src)) =
     [''x'', primed ''x'', ''y'', primed ''y'']"
  by (simp_all add: rabin_dual_game_src bdd_build_def bdd_new_automaton_def)

lemma attractor_inside_no_goal:
  "action_env aut = UNIV \<Longrightarrow> action_sys aut = UNIV \<Longrightarrow>
     attractor_inside bdd_kernel inside {} aut = ({}, [{}])"
  unfolding attractor_inside_def
  by (subst attractor_inside_loop.simps) (simp add: attractor_inside_body_def)

lemma cycle_inside_dual:
  "cycle_inside bdd_kernel {} UNIV (bdd_build (rabin_dual bdd_kernel game_src)) = ({}, [[{}]])"
proof -
  let ?d = "bdd_build (rabin_dual bdd_kernel game_src)"
  have b: "cycle_inside_body bdd_kernel UNIV ?d y = ({}, [[{}]])" for y
    by (simp add: cycle_inside_body_def attractor_inside_no_goal)
  show ?thesis
    unfolding cycle_inside_def
    by (simp, (subst cycle_inside_loop.simps, simp add: b)+)
qed

lemma solve_rabin_game_dual:
  "solve_rabin_game bdd_kernel (bdd_build (rabin_dual bdd_kernel game_src)) 1 =
     Inr ([{}], [[{}]], [[[[{}]]]])"
proof -
  let ?d = "bdd_build (rabin_dual bdd_kernel game_src)"
  have b: "solve_rabin_body bdd_kernel ?d {} = ({}, [[[{}]]], [{}])"
    by (simp add: solve_rabin_body_def cycle_inside_dual)
  have "solve_rabin_loop bdd_kernel ?d {} [] [] [] = ({}, [{}], [[{}]], [[[[{}]]]])"
    by (subst solve_rabin_loop.simps) (simp add: b)
  then show ?thesis
    by (simp add: solve_rabin_game_def primed_def)
qed

lemma trivial_winning_set_game_src:
  "trivial_winning_set bdd_kernel game_src = Inr (UNIV, game)"
  by (simp add: trivial_winning_set_def solve_rabin_game_dual
      solve_streett_game_eval [unfolded game_def] game_def)

lemma game_no_hold_simps [simp]:
  "action_env game_no_hold = UNIV" "action_sys game_no_hold = UNIV"
  "win_holds game_no_hold = [{}]" "win_goals game_no_hold = [y_true]"
  by (simp_all add: game_no_hold_def)

lemma bdd_trap_no_safe [simp]: "bdd_trap env_action sys_action {} aut unless = {}"
  unfolding bdd_trap_def by (subst gfp_loop.simps, simp)+

lemma solve_streett_body_no_hold:
  "solve_streett_body bdd_kernel game_no_hold UNIV = ({}, [[{}]], [[[{}]]])"
proof -
  have b: "attractor_under_body bdd_kernel goal game_no_hold {} = ([{}], {})" for goal
    by (simp add: attractor_under_body_def)
  have "attractor_under_assumptions bdd_kernel goal game_no_hold = ({}, [{}], [[{}]])" for goal
    unfolding attractor_under_assumptions_def
    by (subst attractor_under_loop.simps) (simp add: b)
  then show ?thesis
    by (simp add: solve_streett_body_def)
qed

section \<open>The claims\<close>

text \<open>
  C1.  \<^verbatim>\<open>_controllable_action(target, aut)\<close> primes the target and combines it with the
  actions: with \<^verbatim>\<open>plus_one\<close>, a valuation satisfies the result when it satisfies the
  action of the system and, if it satisfies the action of the environment, the primed
  target; without \<^verbatim>\<open>plus_one\<close>, when, if it satisfies the action of the environment,
  it satisfies the action of the system and the primed target.  With \<^verbatim>\<open>moore\<close> the
  result is quantified universally over \<^verbatim>\<open>aut.varlist["env'"]\<close>, and nothing else is
  quantified: no primed variable of the system is.
\<close>

theorem controllable_action_formula:
  "controllable_action K target aut =
     (if moore aut then forall K aut (varlist_envp aut) else id)
       (if plus_one aut
        then {v. v \<in> action_sys aut \<and> (v \<in> action_env aut \<longrightarrow> v \<in> prime K target aut)}
        else {v. v \<in> action_env aut \<longrightarrow> v \<in> action_sys aut \<and> v \<in> prime K target aut})"
proof -
  have "(prime K target aut \<union> - action_env aut) \<inter> action_sys aut =
      {v. v \<in> action_sys aut \<and> (v \<in> action_env aut \<longrightarrow> v \<in> prime K target aut)}"
    by blast
  moreover have "prime K target aut \<inter> action_sys aut \<union> - action_env aut =
      {v. v \<in> action_env aut \<longrightarrow> v \<in> action_sys aut \<and> v \<in> prime K target aut}"
    by blast
  ultimately show ?thesis
    by (simp add: controllable_action_def Let_def)
qed

text \<open>
  On the game over two Boolean variables, the controllable action towards \<^verbatim>\<open>y\<close> is
  the primed \<^verbatim>\<open>y\<close>, which depends on the primed variable of the system.
\<close>

theorem controllable_action_formula_witness:
  "controllable_action bdd_kernel y_true game = bdd_prime y_true game
   \<and> \<not> state_predicate (controllable_action bdd_kernel y_true game)"
proof -
  have "controllable_action bdd_kernel y_true game = bdd_prime y_true game"
    using controllable_action_formula [of bdd_kernel y_true game] by simp
  then show ?thesis
    by (simp add: bdd_prime_y_true_not_state)
qed

text \<open>
  C2.  In \<^verbatim>\<open>solve_streett_game\<close>, the values of \<^verbatim>\<open>z\<close> at the head of the rounds of
  the outer loop do not increase: the value at round \<open>n + 1\<close> is included in the value
  at round \<open>n\<close>.  The loop returns the first of these values that the next round leaves
  unchanged.
\<close>

theorem streett_z_nonincreasing:
  "streett_z K aut (Suc n) \<subseteq> streett_z K aut n
   \<and> (\<exists>m. fst (solve_streett_loop K aut UNIV) = streett_z K aut m
          \<and> streett_z K aut (Suc m) = streett_z K aut m)"
proof
  show "streett_z K aut (Suc n) \<subseteq> streett_z K aut n"
    by (simp add: solve_streett_body_decr)
next
  have "UNIV = streett_z K aut 0" by simp
  from solve_streett_loop_heads [OF this]
  show "\<exists>m. fst (solve_streett_loop K aut UNIV) = streett_z K aut m
          \<and> streett_z K aut (Suc m) = streett_z K aut m"
    by auto
qed

text \<open>
  With an empty persistence set every trap is empty, and the first round of the outer
  loop takes \<^verbatim>\<open>z\<close> from the full predicate to the empty one.
\<close>

theorem streett_z_nonincreasing_witness:
  "streett_z bdd_kernel game_no_hold 0 = UNIV
   \<and> streett_z bdd_kernel game_no_hold (Suc 0) = {}
   \<and> streett_z bdd_kernel game_no_hold (Suc 0) \<subseteq> streett_z bdd_kernel game_no_hold 0"
  using streett_z_nonincreasing [of bdd_kernel game_no_hold 0]
  by (simp add: solve_streett_body_no_hold)

text \<open>
  C3, as amended.  For every recurrence goal \<open>j\<close>, the list of iterates \<open>y\<^sub>j\<close> that
  \<^verbatim>\<open>solve_streett_game\<close> returns is not empty and does not decrease along its index.
  Its first element is the \<^verbatim>\<open>y\<close> at the end of the first round of
  \<^verbatim>\<open>_attractor_under_assumptions\<close>: the union, over the persistence sets, of the traps
  computed with \<^verbatim>\<open>unless\<close> the controllable predecessor of the empty set or the goal
  within the controllable predecessor of the returned \<^verbatim>\<open>z\<close>.
\<close>

theorem streett_y_basin:
  assumes "solve_streett_game K aut rank = Inr (z, yij, xijk)"
  shows "length yij = length (win_goals aut)
    \<and> (\<forall>j<length yij.
          yij ! j \<noteq> []
        \<and> yij ! j ! 0 =
            (\<Union>safe \<in> set (win_holds aut).
               trap K (action_env aut) (action_sys aut) safe aut
                 (step K (action_env aut) (action_sys aut) {} aut
                    \<union> (win_goals aut ! j \<inter> step K (action_env aut) (action_sys aut) z aut)))
        \<and> (\<forall>l. Suc l < length (yij ! j) \<longrightarrow> yij ! j ! l \<subseteq> yij ! j ! Suc l))"
proof (intro conjI allI impI)
  note y = solve_streett_yij [OF assms]
  show len: "length yij = length (win_goals aut)"
    by (subst y) simp
  fix j assume j: "j < length yij"
  let ?goal = "win_goals aut ! j \<inter> step K (action_env aut) (action_sys aut) z aut"
  obtain y' yj' xjk' where a: "attractor_under_assumptions K ?goal aut = (y', yj', xjk')"
    by (cases "attractor_under_assumptions K ?goal aut")
  have yj: "yij ! j = yj'"
    using j len by (subst y) (simp add: a)
  note p = attractor_under_assumptions_props [OF a]
  show "yij ! j \<noteq> []" using p yj by simp
  show "yij ! j ! 0 =
            (\<Union>safe \<in> set (win_holds aut).
               trap K (action_env aut) (action_sys aut) safe aut
                 (step K (action_env aut) (action_sys aut) {} aut \<union> ?goal))"
    using p yj by (simp add: attractor_under_body_def attractor_under_holds_union)
  fix l assume "Suc l < length (yij ! j)"
  then show "yij ! j ! l \<subseteq> yij ! j ! Suc l"
    using p yj by (simp add: chain_up_def)
qed

theorem streett_y_basin_witness:
  "solve_streett_game bdd_kernel game 1 = Inr (UNIV, [[UNIV, UNIV]], [[[UNIV], [UNIV]]])
   \<and> length [[UNIV, UNIV :: val pred]] = length (win_goals game)
   \<and> [[UNIV, UNIV :: val pred]] ! 0 ! 0 \<subseteq> [[UNIV, UNIV]] ! 0 ! Suc 0"
  using streett_y_basin [OF solve_streett_game_eval] solve_streett_game_eval
  by simp

text \<open>
  C3, as stated, asks for the empty predicate as the first element of every \<open>y\<^sub>j\<close>.
  On the game over two Boolean variables the solver returns one list \<open>y\<^sub>0\<close>, whose
  first element is the full predicate.
\<close>

theorem streett_first_iterate_counterexample:
  "solve_streett_game bdd_kernel game 1 = Inr (UNIV, [[UNIV, UNIV]], [[[UNIV], [UNIV]]])
   \<and> [[UNIV, UNIV :: val pred]] ! 0 ! 0 \<noteq> {}"
  by (simp add: solve_streett_game_eval)

text \<open>
  C4.  The list \<^verbatim>\<open>zk\<close> that \<^verbatim>\<open>solve_rabin_game\<close> returns does not decrease along
  its index.
\<close>

theorem rabin_z_nondecreasing:
  assumes "solve_rabin_game K aut rank = Inr (zk, yki, xkijr)"
  shows "\<forall>l. Suc l < length zk \<longrightarrow> zk ! l \<subseteq> zk ! Suc l"
proof -
  obtain z zk' yki' xkijr' where r: "solve_rabin_loop K aut {} [] [] [] = (z, zk', yki', xkijr')"
    by (cases "solve_rabin_loop K aut {} [] [] []") auto
  have "chain_up zk'"
    using solve_rabin_loop_inv [OF r] by (simp add: chain_up_def)
  moreover have "zk = zk'"
    using assms r by (simp add: solve_rabin_game_def split: if_splits)
  ultimately show ?thesis by (simp add: chain_up_def)
qed

theorem rabin_z_nondecreasing_witness:
  "solve_rabin_game bdd_kernel game 1 =
     Inr ([UNIV, UNIV], [[UNIV], [UNIV]],
          [[[[y_true, UNIV, UNIV]]], [[[y_true, UNIV, UNIV]]]])
   \<and> Suc 0 < length [UNIV, UNIV :: val pred]
   \<and> [UNIV, UNIV :: val pred] ! 0 \<subseteq> [UNIV, UNIV] ! Suc 0"
  using rabin_z_nondecreasing [OF solve_rabin_game_eval] solve_rabin_game_eval
  by simp

text \<open>
  C5, as amended.  Under the initial quantification \<^verbatim>\<open>'\E \A'\<close>, when
  \<^verbatim>\<open>_make_init\<close> returns it has set \<^verbatim>\<open>aut.init['impl_env']\<close> to the conjunction of
  \<open>env_bound\<close> and \<open>sys_bound\<close>, where \<open>env_bound\<close> is the initial condition of the
  environment quantified existentially over the variables of the system, and
  \<open>sys_bound\<close> quantifies universally, over the variables of the environment, the
  disjunction of the negated \<open>env_bound\<close> with the conjunction of the initial condition
  of the environment, the initial condition of the system, the initial condition of the
  counters and the winning region.
\<close>

theorem make_init_exists_forall:
  assumes "qinit aut = qinit_EA"
    and "make_init K internal_init win aut = (Inr (), aut')"
  shows "init_impl_env aut' =
     Some (exist K aut (varlist_sys aut) (init_env aut)
           \<inter> forall K aut (varlist_env aut)
               (init_env aut \<inter> (init_sys aut \<inter> internal_init \<inter> win)
                \<union> - exist K aut (varlist_sys aut) (init_env aut)))"
  using assms(2) unfolding make_init_EA [OF assms(1)]
  by (auto split: if_splits)

theorem make_init_exists_forall_witness:
  "qinit game_ea = qinit_EA
   \<and> make_init bdd_kernel UNIV UNIV game_ea =
       (Inr (), game_ea\<lparr>init_impl_env := Some y_true, init_impl_sys := Some UNIV\<rparr>)
   \<and> init_impl_env (game_ea\<lparr>init_impl_env := Some y_true, init_impl_sys := Some UNIV\<rparr>) =
       Some (exist bdd_kernel game_ea (varlist_sys game_ea) (init_env game_ea)
             \<inter> forall bdd_kernel game_ea (varlist_env game_ea)
                 (init_env game_ea \<inter> (init_sys game_ea \<inter> UNIV \<inter> UNIV)
                  \<union> - exist bdd_kernel game_ea (varlist_sys game_ea) (init_env game_ea)))"
  using make_init_exists_forall [OF _ make_init_game_ea] make_init_game_ea
  by simp

text \<open>
  C5, as stated, has an implication from the initial condition of the environment in
  \<open>sys_bound\<close>.  In the game whose environment starts where \<^verbatim>\<open>y\<close> holds, with a
  full winning region and no constraint on the counters, \<^verbatim>\<open>_make_init\<close> sets
  \<^verbatim>\<open>aut.init['impl_env']\<close> to \<^verbatim>\<open>y\<close>, and the predicate of the claim is the full
  one.
\<close>

theorem make_init_implication_counterexample:
  "init_impl_env (snd (make_init bdd_kernel UNIV UNIV game_ea)) = Some y_true
   \<and> exist bdd_kernel game_ea (varlist_sys game_ea) (init_env game_ea)
       \<inter> forall bdd_kernel game_ea (varlist_env game_ea)
           ((- init_env game_ea \<union> (init_sys game_ea \<inter> UNIV \<inter> UNIV))
            \<union> - exist bdd_kernel game_ea (varlist_sys game_ea) (init_env game_ea)) = UNIV
   \<and> y_true \<noteq> (UNIV :: val pred)"
  by (simp add: make_init_game_ea)

text \<open>
  C6.  When the check of realizability returns false, \<^verbatim>\<open>make_streett_transducer\<close>
  (on the winning set \<^verbatim>\<open>z\<close>) and \<^verbatim>\<open>make_rabin_transducer\<close> (on the winning set
  \<^verbatim>\<open>zk[-1]\<close>) fail with an assertion error and leave the game as it was: no counter
  is declared, and neither \<^verbatim>\<open>aut.action['impl']\<close> nor a key of \<^verbatim>\<open>aut.init\<close> is
  written.
\<close>

theorem transducers_refuse_unrealizable:
  "(is_realizable K z aut = Inr False \<longrightarrow>
      make_streett_transducer K z yij xijk aut = (Inl AssertionError, aut))
   \<and> (zk \<noteq> [] \<and> is_realizable K (last zk) aut = Inr False \<longrightarrow>
      make_rabin_transducer K zk yki xkijr aut = (Inl AssertionError, aut))"
proof (intro conjI impI)
  assume "is_realizable K z aut = Inr False"
  then show "make_streett_transducer K z yij xijk aut = (Inl AssertionError, aut)"
    by (simp add: make_streett_transducer_def)
next
  assume a: "zk \<noteq> [] \<and> is_realizable K (last zk) aut = Inr False"
  then obtain z0 zs where zk: "zk = z0 # zs"
    by (cases zk) auto
  from a have "is_realizable K (last (z0 # zs)) aut = Inr False"
    by (simp only: zk)
  then show "make_rabin_transducer K zk yki xkijr aut = (Inl AssertionError, aut)"
    unfolding make_rabin_transducer_def zk by (simp only: list.case Let_def sum.case bool.case)
qed

theorem transducers_refuse_unrealizable_witness:
  "is_realizable bdd_kernel UNIV game_no_init = Inr False
   \<and> make_streett_transducer bdd_kernel UNIV [[UNIV, UNIV]] [[[UNIV], [UNIV]]] game_no_init =
       (Inl AssertionError, game_no_init)
   \<and> is_realizable bdd_kernel (last [UNIV, UNIV]) game_no_init = Inr False
   \<and> make_rabin_transducer bdd_kernel [UNIV, UNIV] [[UNIV], [UNIV]]
         [[[[y_true, UNIV, UNIV]]], [[[y_true, UNIV, UNIV]]]] game_no_init =
       (Inl AssertionError, game_no_init)"
  using transducers_refuse_unrealizable [of bdd_kernel UNIV game_no_init
      "[[UNIV, UNIV]]" "[[[UNIV], [UNIV]]]" "[UNIV, UNIV]" "[[UNIV], [UNIV]]"
      "[[[[y_true, UNIV, UNIV]]], [[[y_true, UNIV, UNIV]]]]"]
  by (simp add: is_realizable_no_init)

text \<open>
  C7.  The winning set that \<^verbatim>\<open>solve_streett_game\<close> returns, and the last element of
  the list \<^verbatim>\<open>zk\<close> that \<^verbatim>\<open>solve_rabin_game\<close> returns, are state predicates, so
  that the assertion before the return of either solver holds: a solver fails on its
  first four assertions only.  Here a valuation is the pair of its unprimed and its
  primed half, \<^verbatim>\<open>is_state_predicate\<close> is the independence of the primed half,
  \<^verbatim>\<open>fx.step\<close> returns state predicates, \<^verbatim>\<open>fx.trap\<close> returns a state predicate
  when \<^verbatim>\<open>safe\<close> and \<^verbatim>\<open>unless\<close> are, and the recurrence goals and the persistence
  sets of the game are state predicates.
\<close>

theorem winning_sets_state_predicates:
  assumes "\<forall>u. is_state_predicate K u = state_predicate u"
    and "\<forall>t. state_predicate (step K (action_env aut) (action_sys aut) t aut)"
    and "\<forall>safe unless. state_predicate safe \<longrightarrow> state_predicate unless \<longrightarrow>
      state_predicate (trap K (action_env aut) (action_sys aut) safe aut unless)"
    and "\<forall>h \<in> set (win_holds aut). state_predicate h"
    and "\<forall>g \<in> set (win_goals aut). state_predicate g"
  shows "is_state_predicate K (fst (solve_streett_loop K aut UNIV))
    \<and> solve_streett_game K aut rank =
        (if rank = 1 \<and> (bdd_vars aut \<noteq> [] \<or> vars aut = [])
            \<and> length (win_holds aut) > 0 \<and> length (win_goals aut) > 0
         then Inr (solve_streett_loop K aut UNIV) else Inl AssertionError)
    \<and> is_state_predicate K (fst (solve_rabin_loop K aut {} [] [] []))
    \<and> last (fst (snd (solve_rabin_loop K aut {} [] [] []))) = fst (solve_rabin_loop K aut {} [] [] [])
    \<and> solve_rabin_game K aut rank =
        (if rank = 1 \<and> (bdd_vars aut \<noteq> [] \<or> vars aut = [])
            \<and> length (win_holds aut) > 0 \<and> length (win_goals aut) > 0
         then Inr (snd (solve_rabin_loop K aut {} [] [] [])) else Inl AssertionError)"
proof -
  have s: "is_state_predicate K (fst (solve_streett_loop K aut UNIV))"
    using sp_streett [OF assms(2) assms(3) assms(4) assms(5)] assms(1) by simp
  have r: "is_state_predicate K (fst (solve_rabin_loop K aut {} [] [] []))"
    using sp_rabin [OF assms(2) assms(4) assms(5)] assms(1) by simp
  obtain z zk yki xkijr where l: "solve_rabin_loop K aut {} [] [] [] = (z, zk, yki, xkijr)"
    by (cases "solve_rabin_loop K aut {} [] [] []") auto
  have "z = last zk"
    using solve_rabin_loop_inv [OF l] by (simp add: chain_up_def)
  then have e: "last (fst (snd (solve_rabin_loop K aut {} [] [] []))) =
      fst (solve_rabin_loop K aut {} [] [] [])"
    by (simp add: l)
  have g1: "solve_streett_game K aut rank =
        (if rank = 1 \<and> (bdd_vars aut \<noteq> [] \<or> vars aut = [])
            \<and> length (win_holds aut) > 0 \<and> length (win_goals aut) > 0
         then Inr (solve_streett_loop K aut UNIV) else Inl AssertionError)"
    using s by (auto simp: solve_streett_game_def split: prod.splits)
  have g2: "solve_rabin_game K aut rank =
        (if rank = 1 \<and> (bdd_vars aut \<noteq> [] \<or> vars aut = [])
            \<and> length (win_holds aut) > 0 \<and> length (win_goals aut) > 0
         then Inr (snd (solve_rabin_loop K aut {} [] [] [])) else Inl AssertionError)"
    using r by (auto simp: solve_rabin_game_def split: prod.splits)
  show ?thesis
    using s r e g1 g2 by blast
qed

theorem winning_sets_state_predicates_witness:
  "solve_streett_game bdd_kernel game 1 = Inr (solve_streett_loop bdd_kernel game UNIV)
   \<and> state_predicate (fst (solve_streett_loop bdd_kernel game UNIV))
   \<and> solve_rabin_game bdd_kernel game 1 = Inr (snd (solve_rabin_loop bdd_kernel game {} [] [] []))
   \<and> state_predicate (last (fst (snd (solve_rabin_loop bdd_kernel game {} [] [] []))))"
proof -
  have 1: "\<forall>u. is_state_predicate bdd_kernel u = state_predicate u"
    by simp
  have 2: "\<forall>t. state_predicate (step bdd_kernel (action_env game) (action_sys game) t game)"
    by (simp add: cpre_state)
  have 3: "\<forall>safe unless. state_predicate safe \<longrightarrow> state_predicate unless \<longrightarrow>
      state_predicate (trap bdd_kernel (action_env game) (action_sys game) safe game unless)"
    by (simp add: bdd_trap_state)
  have 4: "\<forall>h \<in> set (win_holds game). state_predicate h"
    by simp
  have 5: "\<forall>g \<in> set (win_goals game). state_predicate g"
    by simp
  show ?thesis
    using winning_sets_state_predicates [OF 1 2 3 4 5, of 1] by simp
qed

text \<open>
  C8.  The predicate that \<^verbatim>\<open>trivial_winning_set\<close> returns is disjoint from the last
  element of the list \<^verbatim>\<open>zk\<close> that \<^verbatim>\<open>solve_rabin_game\<close> returns on the compiled
  dual game.
\<close>

theorem trivial_disjoint_rabin:
  assumes "trivial_winning_set K aut_streett = Inr (trivial, aut')"
  shows "\<exists>zk yki xkijr.
     solve_rabin_game K (build K (rabin_dual K aut_streett)) 1 = Inr (zk, yki, xkijr)
     \<and> zk \<noteq> [] \<and> trivial \<inter> last zk = {}"
  using assms
  by (auto simp: trivial_winning_set_def Let_def split: sum.splits prod.splits list.splits)

theorem trivial_disjoint_rabin_witness:
  "trivial_winning_set bdd_kernel game_src = Inr (UNIV, game)
   \<and> solve_rabin_game bdd_kernel (build bdd_kernel (rabin_dual bdd_kernel game_src)) 1 =
       Inr ([{}], [[{}]], [[[[{}]]]])
   \<and> UNIV \<inter> last [{} :: val pred] = {}"
  using trivial_disjoint_rabin [OF trivial_winning_set_game_src]
  by (simp add: trivial_winning_set_game_src solve_rabin_game_dual)

text \<open>
  C9.  When \<^verbatim>\<open>_make_init\<close> returns, it has written two non-empty predicates at
  \<^verbatim>\<open>aut.init['impl_env']\<close> and \<^verbatim>\<open>aut.init['impl_sys']\<close>.  When it raises, it has
  written nothing; and it raises an assertion error when the initial quantification is
  one of the four it knows and one of the two predicates it computed is empty.
\<close>

theorem make_init_nonempty:
  "(make_init K internal_init win aut = (Inr (), aut') \<longrightarrow>
      (\<exists>e s. init_impl_env aut' = Some e \<and> e \<noteq> {} \<and> init_impl_sys aut' = Some s \<and> s \<noteq> {}))
   \<and> (fst (make_init K internal_init win aut) \<noteq> Inr () \<longrightarrow>
        snd (make_init K internal_init win aut) = aut)
   \<and> ((qinit aut = qinit_AA \<or> qinit aut = qinit_AE \<or> qinit aut = qinit_EE)
        \<and> (init_env aut \<inter> (init_sys aut \<inter> internal_init \<inter> win) = {}
            \<or> init_sys aut \<inter> internal_init \<inter> win = {}) \<longrightarrow>
        make_init K internal_init win aut = (Inl AssertionError, aut))
   \<and> (qinit aut = qinit_EA
        \<and> (exist K aut (varlist_sys aut) (init_env aut)
             \<inter> forall K aut (varlist_env aut)
                 (init_env aut \<inter> (init_sys aut \<inter> internal_init \<inter> win)
                  \<union> - exist K aut (varlist_sys aut) (init_env aut)) = {}
            \<or> init_sys aut \<inter> internal_init \<inter> win = {}) \<longrightarrow>
        make_init K internal_init win aut = (Inl AssertionError, aut))"
proof -
  consider (fe) "qinit aut = qinit_AA \<or> qinit aut = qinit_AE \<or> qinit aut = qinit_EE"
    | (ea) "qinit aut = qinit_EA"
    | (unknown) "qinit aut \<noteq> qinit_AA" "qinit aut \<noteq> qinit_AE" "qinit aut \<noteq> qinit_EE"
        "qinit aut \<noteq> qinit_EA"
    by blast
  then show ?thesis
  proof cases
    case fe
    then have "qinit aut \<noteq> qinit_EA" by auto
    then show ?thesis
      by (auto simp: make_init_forall_exist [OF fe] split: if_splits)
  next
    case ea
    then have "\<not> (qinit aut = qinit_AA \<or> qinit aut = qinit_AE \<or> qinit aut = qinit_EE)"
      by simp
    then show ?thesis
      by (auto simp: make_init_EA [OF ea] split: if_splits)
  next
    case unknown
    then show ?thesis
      by (simp add: make_init_unknown)
  qed
qed

theorem make_init_nonempty_witness:
  "make_init bdd_kernel UNIV UNIV game =
     (Inr (), game\<lparr>init_impl_env := Some UNIV, init_impl_sys := Some UNIV\<rparr>)
   \<and> init_impl_env (game\<lparr>init_impl_env := Some UNIV, init_impl_sys := Some UNIV\<rparr>)
       \<noteq> Some {}
   \<and> init_impl_sys (game\<lparr>init_impl_env := Some UNIV, init_impl_sys := Some UNIV\<rparr>)
       \<noteq> Some {}
   \<and> qinit game_no_init = qinit_AA
   \<and> init_sys game_no_init \<inter> UNIV \<inter> UNIV = {}
   \<and> make_init bdd_kernel UNIV UNIV game_no_init = (Inl AssertionError, game_no_init)
   \<and> qinit game_ea = qinit_EA
   \<and> init_sys game_ea \<inter> {} \<inter> UNIV = {}
   \<and> make_init bdd_kernel {} UNIV game_ea = (Inl AssertionError, game_ea)"
  using make_init_nonempty [of bdd_kernel UNIV UNIV game
      "game\<lparr>init_impl_env := Some UNIV, init_impl_sys := Some UNIV\<rparr>"]
    make_init_nonempty [of bdd_kernel UNIV UNIV game_no_init]
    make_init_nonempty [of bdd_kernel "{}" UNIV game_ea]
  by (simp add: make_init_game)

text \<open>
  C10.  \<^verbatim>\<open>_attractor_inside(inside, goal, aut)\<close> returns a pair \<^verbatim>\<open>(x, xr)\<close> in which
  \<^verbatim>\<open>xr\<close> is not empty and does not decrease along its index, and \<^verbatim>\<open>x\<close> is the last
  element of \<^verbatim>\<open>xr\<close>.  When the first round already leaves the empty predicate
  unchanged, \<^verbatim>\<open>xr\<close> has this one element.
\<close>

theorem attractor_inside_history:
  "snd (attractor_inside K inside goal aut) \<noteq> []
   \<and> (\<forall>l. Suc l < length (snd (attractor_inside K inside goal aut)) \<longrightarrow>
         snd (attractor_inside K inside goal aut) ! l
           \<subseteq> snd (attractor_inside K inside goal aut) ! Suc l)
   \<and> fst (attractor_inside K inside goal aut) = last (snd (attractor_inside K inside goal aut))
   \<and> (attractor_inside_body K inside goal aut {} = {} \<longrightarrow>
         snd (attractor_inside K inside goal aut) = [{}])"
proof -
  obtain x xr where r: "attractor_inside_loop K inside goal aut {} [] = (x, xr)"
    by (cases "attractor_inside_loop K inside goal aut {} []")
  have "chain_up xr \<and> xr \<noteq> [] \<and> x = last xr \<and> length ([] :: 'a set list) < length xr
    \<and> take (Suc (length ([] :: 'a set list))) xr = [] @ [attractor_inside_body K inside goal aut {}]
    \<and> (attractor_inside_body K inside goal aut {} = {} \<longrightarrow> xr = [] @ [{}])"
    by (rule attractor_inside_loop_inv [OF r]) (simp_all add: chain_up_def)
  then show ?thesis
    by (simp add: attractor_inside_def r chain_up_def)
qed

theorem attractor_inside_history_witness:
  "attractor_inside bdd_kernel UNIV y_true game = (UNIV, [y_true, UNIV, UNIV])
   \<and> Suc 0 < length (snd (attractor_inside bdd_kernel UNIV y_true game))
   \<and> snd (attractor_inside bdd_kernel UNIV y_true game) ! 0
       \<subseteq> snd (attractor_inside bdd_kernel UNIV y_true game) ! Suc 0
   \<and> attractor_inside_body bdd_kernel UNIV {} game {} = {}
   \<and> snd (attractor_inside bdd_kernel UNIV {} game) = [{}]"
proof -
  have b: "attractor_inside_body bdd_kernel UNIV {} game {} = {}"
    by (simp add: attractor_inside_body_def)
  show ?thesis
    using attractor_inside_history [of bdd_kernel UNIV y_true game]
      attractor_inside_history [of bdd_kernel UNIV "{}" game] b
    by (simp add: attractor_inside_game)
qed

end
